theory Spec2Isabelle
  imports Main "HOL-Library.AList"
begin

section \<open>Strings\<close>

text \<open>
  JavaScript strings are modelled as \<^typ>\<open>string\<close>: a list of code units, here the
  code units below 256. Every pattern and literal of the modelled code is ASCII.
\<close>

definition lowers :: string where
  "lowers = ''abcdefghijklmnopqrstuvwxyz''"

definition uppers :: string where
  "uppers = ''ABCDEFGHIJKLMNOPQRSTUVWXYZ''"

definition digits :: string where
  "digits = ''0123456789''"

definition ascii_upper :: "char \<Rightarrow> char" where
  "ascii_upper c = (case map_of (zip lowers uppers) c of Some u \<Rightarrow> u | None \<Rightarrow> c)"

definition ascii_lower :: "char \<Rightarrow> char" where
  "ascii_lower c = (case map_of (zip uppers lowers) c of Some l \<Rightarrow> l | None \<Rightarrow> c)"

text \<open>\<^verbatim>\<open>s.startsWith(p)\<close>\<close>

fun starts_with :: "string \<Rightarrow> string \<Rightarrow> bool" where
  "starts_with s [] = True"
| "starts_with [] (p # ps) = False"
| "starts_with (c # cs) (p # ps) = (c = p \<and> starts_with cs ps)"

text \<open>\<^verbatim>\<open>s.indexOf(p)\<close>; \<open>None\<close> stands for the result \<open>-1\<close>.\<close>

fun index_of :: "string \<Rightarrow> string \<Rightarrow> nat option" where
  "index_of [] p = (if p = [] then Some 0 else None)"
| "index_of (c # cs) p =
     (if starts_with (c # cs) p then Some 0 else map_option Suc (index_of cs p))"

definition index_of_int :: "string \<Rightarrow> string \<Rightarrow> int" where
  "index_of_int s p = (case index_of s p of None \<Rightarrow> - 1 | Some i \<Rightarrow> int i)"

text \<open>\<^verbatim>\<open>s.includes(p)\<close>\<close>

definition str_includes :: "string \<Rightarrow> string \<Rightarrow> bool" where
  "str_includes s p = (index_of s p \<noteq> None)"

text \<open>\<^verbatim>\<open>parts.join(sep)\<close>\<close>

fun join :: "string \<Rightarrow> string list \<Rightarrow> string" where
  "join sep [] = []"
| "join sep [x] = x"
| "join sep (x # y # ys) = x @ sep @ join sep (y # ys)"

section \<open>Regular expressions\<close>

text \<open>
  The regular expressions of the source are kept as syntax trees and run by a backtracking
  matcher that follows the ECMAScript semantics for the constructs the source uses:
  literal characters, \<^verbatim>\<open>.\<close>, character classes and their negation, \<^verbatim>\<open>\d \w \s\<close>,
  sequence, alternation, greedy and lazy repetition, capture groups, positive lookahead,
  \<^verbatim>\<open>^\<close> and \<^verbatim>\<open>$\<close> (without the multiline flag), and the ignore-case flag.
  No pattern of the source has a capture group under a quantifier, so the
  reset of captures at each iteration is not modelled.
\<close>

datatype cset = CChar char | CRange char char | CDigit | CWord | CSpace

datatype regex =
    Chr char
  | Dot
  | Set "cset list"
  | NSet "cset list"
  | Eps
  | Seq regex regex
  | Alt regex regex
  | Star regex
  | LazyStar regex
  | Group nat regex
  | Ahead regex
  | Bol
  | Eol

definition in_range :: "char \<Rightarrow> char \<Rightarrow> char \<Rightarrow> bool" where
  "in_range lo hi c = ((of_char lo :: nat) \<le> of_char c \<and> (of_char c :: nat) \<le> of_char hi)"

text \<open>White space and line terminators among the code units below 256.\<close>

definition is_space :: "char \<Rightarrow> bool" where
  "is_space c = ((of_char c :: nat) \<in> {9, 10, 11, 12, 13, 32, 160})"

definition is_line_terminator :: "char \<Rightarrow> bool" where
  "is_line_terminator c = ((of_char c :: nat) \<in> {10, 13})"

fun in_cset :: "cset \<Rightarrow> char \<Rightarrow> bool" where
  "in_cset (CChar a) c = (c = a)"
| "in_cset (CRange lo hi) c = in_range lo hi c"
| "in_cset CDigit c = in_range CHR ''0'' CHR ''9'' c"
| "in_cset CWord c =
     (in_range CHR ''a'' CHR ''z'' c \<or> in_range CHR ''A'' CHR ''Z'' c
      \<or> in_range CHR ''0'' CHR ''9'' c \<or> c = CHR ''_'')"
| "in_cset CSpace c = is_space c"

text \<open>
  Canonicalisation under the ignore-case flag: a character matches a class when some
  member of the class has the same canonical form. For classes of ASCII members this
  is membership of the character, of its upper-case or of its lower-case form.
\<close>

definition canon :: "bool \<Rightarrow> char \<Rightarrow> char" where
  "canon ic c = (if ic then ascii_upper c else c)"

definition in_class :: "bool \<Rightarrow> cset list \<Rightarrow> char \<Rightarrow> bool" where
  "in_class ic cs c =
     (list_ex (\<lambda>k. in_cset k c) cs
      \<or> (ic \<and> (list_ex (\<lambda>k. in_cset k (ascii_upper c)) cs
               \<or> list_ex (\<lambda>k. in_cset k (ascii_lower c)) cs)))"

text \<open>
  A matcher state is the absolute position, the rest of the input from that position
  and the captures so far. A matcher returns its successes in the order in which the
  backtracking search of the engine tries them, so the head of the list is the match
  the engine reports.
\<close>

type_synonym mstate = "nat \<times> string \<times> (nat \<times> string) list"

definition one_char :: "(char \<Rightarrow> bool) \<Rightarrow> mstate \<Rightarrow> mstate list" where
  "one_char P st =
     (case st of (pos, rest, caps) \<Rightarrow>
        (case rest of [] \<Rightarrow> [] | x # xs \<Rightarrow> if P x then [(Suc pos, xs, caps)] else []))"

text \<open>
  Repetition. An iteration that consumes nothing is rejected, as the engine does, so
  the length of the remaining input bounds the number of iterations.
\<close>

primrec repeat_matcher ::
  "(mstate \<Rightarrow> mstate list) \<Rightarrow> bool \<Rightarrow> nat \<Rightarrow> mstate \<Rightarrow> mstate list" where
  "repeat_matcher body greedy 0 st = [st]"
| "repeat_matcher body greedy (Suc n) st =
     (let more = concat (map (\<lambda>st'. if length (fst (snd st')) < length (fst (snd st))
                                      then repeat_matcher body greedy n st' else [])
                             (body st))
      in if greedy then more @ [st] else st # more)"

primrec rmatch :: "bool \<Rightarrow> regex \<Rightarrow> mstate \<Rightarrow> mstate list" where
  "rmatch ic (Chr c) st = one_char (\<lambda>x. canon ic x = canon ic c) st"
| "rmatch ic Dot st = one_char (\<lambda>x. \<not> is_line_terminator x) st"
| "rmatch ic (Set cs) st = one_char (\<lambda>x. in_class ic cs x) st"
| "rmatch ic (NSet cs) st = one_char (\<lambda>x. \<not> in_class ic cs x) st"
| "rmatch ic Eps st = [st]"
| "rmatch ic (Seq r1 r2) st = concat (map (rmatch ic r2) (rmatch ic r1 st))"
| "rmatch ic (Alt r1 r2) st = rmatch ic r1 st @ rmatch ic r2 st"
| "rmatch ic (Star r) st = repeat_matcher (rmatch ic r) True (length (fst (snd st))) st"
| "rmatch ic (LazyStar r) st = repeat_matcher (rmatch ic r) False (length (fst (snd st))) st"
| "rmatch ic (Group k r) st =
     map (\<lambda>st'. (fst st', fst (snd st'),
                 AList.update k (take (fst st' - fst st) (fst (snd st))) (snd (snd st'))))
         (rmatch ic r st)"
| "rmatch ic (Ahead r) st =
     (case rmatch ic r st of [] \<Rightarrow> []
      | st' # _ \<Rightarrow> [(fst st, fst (snd st), snd (snd st'))])"
| "rmatch ic Bol st = (if fst st = 0 then [st] else [])"
| "rmatch ic Eol st = (if fst (snd st) = [] then [st] else [])"

text \<open>Derived forms: a literal string, \<^verbatim>\<open>r+\<close> and \<^verbatim>\<open>r?\<close>.\<close>

definition lit :: "string \<Rightarrow> regex" where
  "lit s = foldr (\<lambda>c r. Seq (Chr c) r) s Eps"

definition Plus :: "regex \<Rightarrow> regex" where
  "Plus r = Seq r (Star r)"

definition Opt :: "regex \<Rightarrow> regex" where
  "Opt r = Alt r Eps"

fun seqs :: "regex list \<Rightarrow> regex" where
  "seqs [] = Eps"
| "seqs [r] = r"
| "seqs (r # rs) = Seq r (seqs rs)"

text \<open>
  A match: where it starts, where it ends, the matched text and the captures.
\<close>

record rx_match =
  m_index :: nat
  m_end :: nat
  m_text :: string
  m_groups :: "(nat \<times> string) list"

definition group :: "rx_match \<Rightarrow> nat \<Rightarrow> string option" where
  "group mt k = map_of (m_groups mt) k"

text \<open>The match that starts exactly at position \<open>p\<close>, where \<open>s\<close> is the input from \<open>p\<close> on.\<close>

definition match_at :: "bool \<Rightarrow> regex \<Rightarrow> nat \<Rightarrow> string \<Rightarrow> rx_match option" where
  "match_at ic r p s =
     (case rmatch ic r (p, s, []) of [] \<Rightarrow> None
      | st # _ \<Rightarrow> Some \<lparr>m_index = p, m_end = fst st,
                          m_text = take (fst st - p) s, m_groups = snd (snd st)\<rparr>)"

text \<open>The leftmost match at or after position \<open>p\<close>.\<close>

fun search :: "bool \<Rightarrow> regex \<Rightarrow> nat \<Rightarrow> string \<Rightarrow> rx_match option" where
  "search ic r p [] = match_at ic r p []"
| "search ic r p (c # cs) =
     (case match_at ic r p (c # cs) of Some mt \<Rightarrow> Some mt
      | None \<Rightarrow> search ic r (Suc p) cs)"

text \<open>\<^verbatim>\<open>pattern.test(s)\<close> and \<^verbatim>\<open>s.match(pattern)\<close> for a pattern without the global flag.\<close>

definition regex_test :: "bool \<Rightarrow> regex \<Rightarrow> string \<Rightarrow> bool" where
  "regex_test ic r s = (search ic r 0 s \<noteq> None)"

section \<open>Session-expiry detection (client.ts)\<close>

definition SESSION_EXPIRY_PATTERNS :: "regex list" where
  "SESSION_EXPIRY_PATTERNS =
     [seqs [lit ''session'', Star Dot, lit ''expired''],
      seqs [lit ''invalid'', Star Dot, lit ''session''],
      seqs [lit ''not'', Star Dot, lit ''logged'', Star Dot, lit ''in''],
      seqs [lit ''login'', Star Dot, lit ''required''],
      seqs [lit ''authentication'', Star Dot, lit ''failed''],
      lit ''unauthorized'']"

definition isSessionExpiredResponse :: "string \<Rightarrow> bool" where
  "isSessionExpiredResponse xml =
     (if list_ex (\<lambda>pattern. regex_test True pattern xml) SESSION_EXPIRY_PATTERNS then True
      else if str_includes xml ''<!DOCTYPE html'' \<or> str_includes xml ''<html'' then True
      else False)"

section \<open>More of the string and pattern library\<close>

text \<open>\<^verbatim>\<open>s.split(sep)\<close> for a string separator.\<close>

function split_on :: "string \<Rightarrow> string \<Rightarrow> string \<Rightarrow> string list" where
  "split_on sep [] acc = [acc]"
| "split_on sep (c # cs) acc =
     (if sep \<noteq> [] \<and> starts_with (c # cs) sep
      then acc # split_on sep (drop (length sep) (c # cs)) []
      else split_on sep cs (acc @ [c]))"
  by pat_completeness auto
termination
  by (relation "measure (\<lambda>(sep, s, acc). length s)") auto

definition split_str :: "string \<Rightarrow> string \<Rightarrow> string list" where
  "split_str sep s = (if sep = [] then map (\<lambda>c. [c]) s else split_on sep s [])"

text \<open>\<^verbatim>\<open>s.trim()\<close>\<close>

definition trim :: "string \<Rightarrow> string" where
  "trim s = rev (dropWhile is_space (rev (dropWhile is_space s)))"

text \<open>\<^verbatim>\<open>s.replace(p, r)\<close> for a string pattern: the first occurrence only.\<close>

definition replace_first :: "string \<Rightarrow> string \<Rightarrow> string \<Rightarrow> string" where
  "replace_first s p r =
     (case index_of s p of None \<Rightarrow> s
      | Some i \<Rightarrow> take i s @ r @ drop (i + length p) s)"

text \<open>Decimal notation of a number, as in a template literal.\<close>

definition digit_char :: "nat \<Rightarrow> char" where
  "digit_char d = digits ! d"

fun dec_str :: "nat \<Rightarrow> string" where
  "dec_str n = (if n < 10 then [digit_char n] else dec_str (n div 10) @ [digit_char (n mod 10)])"

declare dec_str.simps [simp del]

text \<open>
  \<^verbatim>\<open>parseInt(s)\<close> without a radix: leading white space, an optional sign, a \<^verbatim>\<open>0x\<close>
  prefix for base 16, then the longest run of digits; \<open>None\<close> stands for \<^verbatim>\<open>NaN\<close>.
\<close>

definition hex_digits :: "(char \<times> nat) list" where
  "hex_digits = zip ''0123456789abcdef'' [0 ..< 16] @ zip ''ABCDEF'' [10 ..< 16]"

definition digit_val :: "nat \<Rightarrow> char \<Rightarrow> nat option" where
  "digit_val radix c =
     (case map_of hex_digits c of None \<Rightarrow> None
      | Some d \<Rightarrow> if d < radix then Some d else None)"

fun digits_prefix :: "nat \<Rightarrow> string \<Rightarrow> nat list" where
  "digits_prefix radix [] = []"
| "digits_prefix radix (c # cs) =
     (case digit_val radix c of None \<Rightarrow> [] | Some d \<Rightarrow> d # digits_prefix radix cs)"

definition parse_digits :: "nat \<Rightarrow> string \<Rightarrow> int option" where
  "parse_digits radix s =
     (case digits_prefix radix s of [] \<Rightarrow> None
      | ds \<Rightarrow> Some (foldl (\<lambda>acc d. acc * int radix + int d) 0 ds))"

definition parse_unsigned :: "string \<Rightarrow> int option" where
  "parse_unsigned s =
     (if starts_with s ''0x'' \<or> starts_with s ''0X'' then parse_digits 16 (drop 2 s)
      else parse_digits 10 s)"

definition parseInt :: "string \<Rightarrow> int option" where
  "parseInt s =
     (case dropWhile is_space s of
        [] \<Rightarrow> None
      | c # cs \<Rightarrow>
          if c = CHR ''-'' then map_option uminus (parse_unsigned cs)
          else if c = CHR ''+'' then parse_unsigned cs
          else parse_unsigned (c # cs))"

text \<open>
  All matches of a pattern with the global flag, as \<^verbatim>\<open>s.match(pattern)\<close> collects them:
  the search resumes where the last match ended, one further after an empty match, and
  stops when that is beyond the end of the input. \<open>s\<close> is the input from position \<open>p\<close> on.
\<close>

function match_all :: "bool \<Rightarrow> regex \<Rightarrow> nat \<Rightarrow> string \<Rightarrow> rx_match list" where
  "match_all ic r p s =
     (case search ic r p s of
        None \<Rightarrow> []
      | Some mt \<Rightarrow>
          (let q = (if m_end mt = m_index mt then Suc (m_end mt) else m_end mt)
           in if p < q \<and> q - p \<le> length s
              then mt # match_all ic r q (drop (q - p) s)
              else [mt]))"
  by pat_completeness auto
termination
  by (relation "measure (\<lambda>(ic, r, p, s). length s)") auto

declare match_all.simps [simp del]

text \<open>
  The loop \<^verbatim>\<open>while ((match = regex.exec(str)) !== null) { ... }\<close> over a pattern with the
  global flag. Each round searches from where the last match ended and runs the body on
  the match. After an empty match the search would start from the same place again and
  the loop would not end; then the result is \<open>None\<close>.
\<close>

partial_function (option) exec_loop ::
  "(rx_match \<Rightarrow> 'a \<Rightarrow> 'a) \<Rightarrow> bool \<Rightarrow> regex \<Rightarrow> nat \<Rightarrow> string \<Rightarrow> 'a \<Rightarrow> 'a option" where
  "exec_loop f ic r p s d =
     (case search ic r p s of
        None \<Rightarrow> Some d
      | Some mt \<Rightarrow> exec_loop f ic r (m_end mt) (drop (m_end mt - p) s) (f mt d))"

declare exec_loop.simps [code]

text \<open>
  \<^verbatim>\<open>s.split(pattern)\<close> for a pattern without capture groups. The pattern is tried at each
  position \<open>q\<close> in turn; \<open>acc\<close> is the text since the last separator. A match that ends
  where the last separator ended is skipped. The end of a match at \<open>q\<close> is never before
  \<open>q\<close>.
\<close>

function regex_split_from :: "bool \<Rightarrow> regex \<Rightarrow> nat \<Rightarrow> string \<Rightarrow> string \<Rightarrow> string list" where
  "regex_split_from ic r q [] acc = [acc]"
| "regex_split_from ic r q (c # cs) acc =
     (case match_at ic r q (c # cs) of
        None \<Rightarrow> regex_split_from ic r (Suc q) cs (acc @ [c])
      | Some mt \<Rightarrow>
          if m_end mt \<le> q
          then (if acc = [] then regex_split_from ic r (Suc q) cs (acc @ [c])
                else acc # regex_split_from ic r q (c # cs) [])
          else acc # regex_split_from ic r (m_end mt) (drop (m_end mt - q) (c # cs)) [])"
  by pat_completeness auto
termination
  by (relation "measures [\<lambda>(ic, r, q, s, acc). length s, \<lambda>(ic, r, q, s, acc). length acc]") auto

definition regex_split :: "bool \<Rightarrow> regex \<Rightarrow> string \<Rightarrow> string list" where
  "regex_split ic r s =
     (if s = [] then (case match_at ic r 0 [] of None \<Rightarrow> [[]] | Some mt \<Rightarrow> [])
      else regex_split_from ic r 0 s [])"

text \<open>
  The text of a capture group. Every group of the patterns below takes part in every
  match of its pattern.
\<close>

definition grp :: "rx_match \<Rightarrow> nat \<Rightarrow> string" where
  "grp mt k = (case group mt k of None \<Rightarrow> [] | Some t \<Rightarrow> t)"

section \<open>Cookie jar (client.ts)\<close>

text \<open>
  A JavaScript \<^verbatim>\<open>Map<string, string>\<close> is an association list in insertion order;
  \<^verbatim>\<open>map.set(k, v)\<close> is \<^const>\<open>AList.update\<close>: the value of a present key is replaced
  in place, a new key goes to the end.
\<close>

type_synonym cookie_map = "(string \<times> string) list"

text \<open>\<^verbatim>\<open>/,(?=[^;]+=[^;]+)/\<close>\<close>

definition cookieSplit_re :: regex where
  "cookieSplit_re =
     Seq (Chr CHR '','')
         (Ahead (seqs [Plus (NSet [CChar CHR '';'']), Chr CHR ''='', Plus (NSet [CChar CHR '';''])]))"

text \<open>\<^verbatim>\<open>/^([^=]+)=([^;]+)/\<close>\<close>

definition cookiePair_re :: regex where
  "cookiePair_re =
     seqs [Bol, Group 1 (Plus (NSet [CChar CHR ''=''])), Chr CHR ''='',
           Group 2 (Plus (NSet [CChar CHR '';'']))]"

text \<open>
  \<open>extractCookies\<close> reads the \<^verbatim>\<open>set-cookie\<close> header of a response; the argument is
  the value of \<^verbatim>\<open>response.headers.get('set-cookie')\<close>, \<open>None\<close> for \<^verbatim>\<open>null\<close>.
\<close>

definition extractCookies :: "string option \<Rightarrow> cookie_map" where
  "extractCookies setCookieHeader =
     (case setCookieHeader of
        None \<Rightarrow> []
      | Some h \<Rightarrow>
          if h = [] then []
          else fold (\<lambda>part cookies'.
                       case search False cookiePair_re 0 part of
                         None \<Rightarrow> cookies'
                       | Some mt \<Rightarrow> AList.update (trim (grp mt 1)) (trim (grp mt 2)) cookies')
                    (regex_split False cookieSplit_re h) [])"

text \<open>
  The first loop of \<open>mergeCookies\<close>: \<^verbatim>\<open>const [key, value] = part.split('=')\<close> takes the
  first two pieces of the part; a missing piece is \<^verbatim>\<open>undefined\<close> and fails the test
  \<^verbatim>\<open>key && value\<close>, as an empty one does.
\<close>

definition parseExisting :: "string \<Rightarrow> cookie_map" where
  "parseExisting existing =
     (if existing = [] then []
      else fold (\<lambda>part cookieMap.
                   case split_str ''='' part of
                     key # value # rest \<Rightarrow>
                       if key \<noteq> [] \<and> value \<noteq> [] then AList.update key value cookieMap
                       else cookieMap
                   | _ \<Rightarrow> cookieMap)
                (split_str ''; '' existing) [])"

definition mergeEntries :: "string \<Rightarrow> cookie_map \<Rightarrow> cookie_map" where
  "mergeEntries existing newCookies =
     fold (\<lambda>(key, value) cookieMap. AList.update key value cookieMap) newCookies
          (parseExisting existing)"

definition formatCookies :: "cookie_map \<Rightarrow> string" where
  "formatCookies cookieMap = join ''; '' (map (\<lambda>(key, value). key @ ''='' @ value) cookieMap)"

definition mergeCookies :: "string \<Rightarrow> cookie_map \<Rightarrow> string" where
  "mergeCookies existing newCookies = formatCookies (mergeEntries existing newCookies)"

section \<open>Session store (session-store.ts)\<close>

record HomebriefingSession =
  cookies :: string
  token :: string
  userSession :: string
  expiresAt :: int

record PendingLogin =
  pl_cookies :: string
  pl_token :: string
  createdAt :: int

record SessionStore =
  sessions :: "string \<rightharpoonup> HomebriefingSession"
  pendingLogins :: "string \<rightharpoonup> PendingLogin"

definition SESSION_TIMEOUT :: int where
  "SESSION_TIMEOUT = 30 * 60 * 1000"

definition PENDING_TIMEOUT :: int where
  "PENDING_TIMEOUT = 5 * 60 * 1000"

text \<open>
  Time is the value of \<^verbatim>\<open>Date.now()\<close>, in milliseconds. Each call of \<^verbatim>\<open>Date.now()\<close> is
  a parameter: \<open>getSession\<close> reads the clock for the expiry test (\<open>now1\<close>) and again for
  the new expiry (\<open>now2\<close>). The identifier that \<open>generateSessionId\<close> draws at random is
  a parameter of \<open>createPendingLogin\<close>.
\<close>

definition createPendingLogin ::
  "string \<Rightarrow> int \<Rightarrow> string \<Rightarrow> string \<Rightarrow> SessionStore \<Rightarrow> string \<times> SessionStore" where
  "createPendingLogin sessionId now cookies' token' st =
     (sessionId,
      st\<lparr>pendingLogins := (pendingLogins st)
            (sessionId \<mapsto> \<lparr>pl_cookies = cookies', pl_token = token', createdAt = now\<rparr>)\<rparr>)"

definition getPendingLogin ::
  "int \<Rightarrow> string \<Rightarrow> SessionStore \<Rightarrow> PendingLogin option \<times> SessionStore" where
  "getPendingLogin now sessionId st =
     (case pendingLogins st sessionId of
        None \<Rightarrow> (None, st)
      | Some pending \<Rightarrow>
          if now - createdAt pending > PENDING_TIMEOUT
          then (None, st\<lparr>pendingLogins := (pendingLogins st)(sessionId := None)\<rparr>)
          else (Some pending, st))"

definition activateSession ::
  "int \<Rightarrow> string \<Rightarrow> string \<Rightarrow> string \<Rightarrow> string \<Rightarrow> SessionStore \<Rightarrow> bool \<times> SessionStore" where
  "activateSession now sessionId cookies' token' userSession' st =
     (True,
      st\<lparr>pendingLogins := (pendingLogins st)(sessionId := None),
         sessions := (sessions st)
           (sessionId \<mapsto> \<lparr>cookies = cookies', token = token', userSession = userSession',
                            expiresAt = now + SESSION_TIMEOUT\<rparr>)\<rparr>)"

definition getSession ::
  "int \<Rightarrow> int \<Rightarrow> string \<Rightarrow> SessionStore \<Rightarrow> HomebriefingSession option \<times> SessionStore" where
  "getSession now1 now2 sessionId st =
     (case sessions st sessionId of
        None \<Rightarrow> (None, st)
      | Some session \<Rightarrow>
          if now1 > expiresAt session
          then (None, st\<lparr>sessions := (sessions st)(sessionId := None)\<rparr>)
          else (let session' = session\<lparr>expiresAt := now2 + SESSION_TIMEOUT\<rparr>
                in (Some session', st\<lparr>sessions := (sessions st)(sessionId \<mapsto> session')\<rparr>)))"

definition deleteSession :: "string \<Rightarrow> SessionStore \<Rightarrow> SessionStore" where
  "deleteSession sessionId st =
     st\<lparr>sessions := (sessions st)(sessionId := None),
        pendingLogins := (pendingLogins st)(sessionId := None)\<rparr>"

definition cleanup :: "int \<Rightarrow> SessionStore \<Rightarrow> SessionStore" where
  "cleanup now st =
     st\<lparr>sessions := (\<lambda>id'. case sessions st id' of
                           None \<Rightarrow> None
                         | Some session \<Rightarrow> if now > expiresAt session then None else Some session),
        pendingLogins := (\<lambda>id'. case pendingLogins st id' of
                           None \<Rightarrow> None
                         | Some pending \<Rightarrow>
                             if now - createdAt pending > PENDING_TIMEOUT then None
                             else Some pending)\<rparr>"

text \<open>
  A caller that reads the same session again and again: one call of \<open>getSession\<close> for
  each pair of clock readings, the results in order.
\<close>

fun getSession_run ::
  "(int \<times> int) list \<Rightarrow> string \<Rightarrow> SessionStore \<Rightarrow> HomebriefingSession option list" where
  "getSession_run [] sessionId st = []"
| "getSession_run ((now1, now2) # ts) sessionId st =
     (case getSession now1 now2 sessionId st of
        (r, st') \<Rightarrow> r # getSession_run ts sessionId st')"

text \<open>
  The readings of a caller whose every call starts at most 20 minutes after the session
  was last extended, at time \<open>t\<close>.
\<close>

fun every_20_minutes :: "int \<Rightarrow> (int \<times> int) list \<Rightarrow> bool" where
  "every_20_minutes t [] = True"
| "every_20_minutes t ((now1, now2) # ts) =
     (now1 \<le> t + 20 * 60 * 1000 \<and> every_20_minutes now2 ts)"

section \<open>Action buttons of a flight plan (dashboard)\<close>

text \<open>
  The operator \<^verbatim>\<open>&\<close> works on the 32-bit two's complement value of its operands.
\<close>

definition to_int32 :: "int \<Rightarrow> int" where
  "to_int32 x = (x + 2 ^ 31) mod 2 ^ 32 - 2 ^ 31"

definition js_and :: "int \<Rightarrow> int \<Rightarrow> int" where
  "js_and x y = and (to_int32 x) (to_int32 y)"

definition canPerformActions :: "int \<Rightarrow> int \<Rightarrow> bool" where
  "canPerformActions statusCode flCanDo =
     (if statusCode \<noteq> 48 \<and> statusCode \<noteq> 53 then False
      else if js_and flCanDo 7 = 7 then False
      else if js_and flCanDo 4 = 4 then False
      else if js_and flCanDo 16 = 16 then False
      else if js_and flCanDo 3 = 3 then True
      else if js_and flCanDo 1 = 1 then True
      else False)"

text \<open>
  The actions that the bitmask of the portal speaks of, and the buttons that the detail
  view of a flight plan renders: a delay and a cancel button, both under the one test
  \<^verbatim>\<open>!isArchive && canPerformActions(fp.flStatusCode, fp.flCanDo)\<close>. No other action of a
  flight plan has a button or a request in the repository.
\<close>

datatype action = DEP | ARR | CNL | DLA | CHG

definition actionButtons :: "bool \<Rightarrow> int \<Rightarrow> int \<Rightarrow> action list" where
  "actionButtons isArchive flStatusCode flCanDo =
     (if \<not> isArchive \<and> canPerformActions flStatusCode flCanDo then [DLA, CNL] else [])"

section \<open>Example inputs\<close>

text \<open>A store that holds one session, activated at time 0.\<close>

definition example_store :: SessionStore where
  "example_store =
     snd (activateSession 0 ''id'' ''a=1'' ''tok'' ''us''
            \<lparr>sessions = Map.empty, pendingLogins = Map.empty\<rparr>)"

definition example_session :: HomebriefingSession where
  "example_session = \<lparr>cookies = ''a=1'', token = ''tok'', userSession = ''us'', expiresAt = 1800000\<rparr>"

section \<open>Login (client.ts)\<close>

text \<open>
  The portal is the environment: \<open>fetch\<close> maps a request to the response it gets, or to
  \<open>None\<close> when the promise is rejected; the exception then leaves \<open>submitLogin\<close>.
  Of a response the model keeps what the code reads: the status, the \<^verbatim>\<open>set-cookie\<close>
  and \<^verbatim>\<open>location\<close> headers and the body. \<^verbatim>\<open>response.ok\<close> is a status from 200 to 299.
\<close>

record http_request =
  req_url :: string
  req_method :: string
  req_headers :: "(string \<times> string) list"
  req_form :: "(string \<times> string) list"
  req_redirect_manual :: bool

record http_response =
  rsp_status :: int
  rsp_set_cookie :: "string option"
  rsp_location :: "string option"
  rsp_body :: string

definition rsp_ok :: "http_response \<Rightarrow> bool" where
  "rsp_ok r = (200 \<le> rsp_status r \<and> rsp_status r \<le> 299)"

definition BASE_URL :: string where
  "BASE_URL = ''https://hbs.ixosystem.eu/ixo''"

definition USER_AGENT :: string where
  "USER_AGENT = ''Mozilla/5.0 (Macintosh; Intel Mac OS X 10_15_7) AppleWebKit/537.36''"

datatype LoginResult =
    LoginFailure string
  | LoginSuccess string string string

datatype thrown = FetchRejected

definition loginRequest :: "string \<Rightarrow> string \<Rightarrow> string \<Rightarrow> string \<Rightarrow> string \<Rightarrow> http_request" where
  "loginRequest cookies' token' username password captcha =
     \<lparr>req_url = BASE_URL @ ''/dataHandler.php?method=loginExt'',
      req_method = ''POST'',
      req_headers = [(''Content-Type'', ''application/x-www-form-urlencoded''),
                     (''User-Agent'', USER_AGENT),
                     (''Cookie'', cookies'),
                     (''X-AisWeb-Token'', token'),
                     (''Origin'', ''https://hbs.ixosystem.eu'')],
      req_form = [(''userName'', username), (''password'', password), (''lang'', ''en''),
                  (''captcha'', captcha)],
      req_redirect_manual = False\<rparr>"

definition indexRequest :: "string \<Rightarrow> bool \<Rightarrow> http_request" where
  "indexRequest currentCookies manual =
     \<lparr>req_url = BASE_URL @ ''/index.php'',
      req_method = ''GET'',
      req_headers = [(''User-Agent'', USER_AGENT), (''Cookie'', currentCookies)],
      req_form = [],
      req_redirect_manual = manual\<rparr>"

text \<open>\<^verbatim>\<open>/new\s+AppController\s*\(\s*"([^"]+)"\s*,\s*"([^"]+)"/\<close>\<close>

definition appController_re :: regex where
  "appController_re =
     seqs [lit ''new'', Plus (Set [CSpace]), lit ''AppController'', Star (Set [CSpace]),
           Chr CHR ''('', Star (Set [CSpace]),
           Chr CHR 0x22, Group 1 (Plus (NSet [CChar CHR 0x22])), Chr CHR 0x22,
           Star (Set [CSpace]), Chr CHR '','', Star (Set [CSpace]),
           Chr CHR 0x22, Group 2 (Plus (NSet [CChar CHR 0x22])), Chr CHR 0x22]"

text \<open>The end of \<open>submitLogin\<close>: the token and the user session are read from the page.\<close>

definition extractSession :: "string \<Rightarrow> string \<Rightarrow> LoginResult" where
  "extractSession currentCookies indexHtml =
     (case search False appController_re 0 indexHtml of
        None \<Rightarrow> LoginFailure ''Failed to extract session data after login''
      | Some appCtrlMatch \<Rightarrow>
          LoginSuccess currentCookies (grp appCtrlMatch 1) (grp appCtrlMatch 2))"

definition redirectsToLogin :: "http_response \<Rightarrow> bool" where
  "redirectsToLogin indexResponse =
     (rsp_status indexResponse = 302
      \<and> (case rsp_location indexResponse of
            None \<Rightarrow> False
          | Some location \<Rightarrow> str_includes location ''login.php''))"

definition hasErrorMarker :: "string \<Rightarrow> bool" where
  "hasErrorMarker responseText =
     (str_includes responseText ''<IsError>1</IsError>''
      \<or> str_includes responseText ''<LoginOK>0</LoginOK>'')"

definition submitLogin ::
  "(http_request \<Rightarrow> http_response option) \<Rightarrow> string \<Rightarrow> string \<Rightarrow> string \<Rightarrow> string \<Rightarrow> string
     \<Rightarrow> thrown + LoginResult" where
  "submitLogin fetch cookies' token' username password captcha =
     (case fetch (loginRequest cookies' token' username password captcha) of
        None \<Rightarrow> Inl FetchRejected
      | Some loginResponse \<Rightarrow>
          if \<not> rsp_ok loginResponse then Inr (LoginFailure ''Login request failed'')
          else
            let currentCookies =
                  mergeCookies cookies' (extractCookies (rsp_set_cookie loginResponse));
                responseText = rsp_body loginResponse
            in if hasErrorMarker responseText
               then Inr (LoginFailure ''Invalid credentials or captcha'')
               else
                 (case fetch (indexRequest currentCookies True) of
                    None \<Rightarrow> Inl FetchRejected
                  | Some indexResponse \<Rightarrow>
                      let currentCookies2 =
                            mergeCookies currentCookies
                              (extractCookies (rsp_set_cookie indexResponse))
                      in if redirectsToLogin indexResponse
                         then Inr (LoginFailure ''Login failed - redirected back to login'')
                         else if rsp_status indexResponse = 302
                         then
                           (case fetch (indexRequest currentCookies2 False) of
                              None \<Rightarrow> Inl FetchRejected
                            | Some redirectResponse \<Rightarrow>
                                Inr (extractSession
                                       (mergeCookies currentCookies2
                                          (extractCookies (rsp_set_cookie redirectResponse)))
                                       (rsp_body redirectResponse)))
                         else Inr (extractSession currentCookies2 (rsp_body indexResponse))))"

section \<open>Validation response (client.ts)\<close>

record FieldError =
  field :: string
  message :: string

record FlightPlanValidationResponse =
  isError :: bool
  sessionExpired :: "bool option"
  fplIsOk :: bool
  errorMessages :: "string list option"
  fieldErrors :: "FieldError list option"
  rawResponse :: "string option"

text \<open>
  \<^verbatim>\<open><(?:ns1:)?TAG>([^<]*)</(?:ns1:)?TAG>\<close>, the pattern of \<open>getTagValue\<close> and, for the tags
  \<^verbatim>\<open>FplErrors\<close> and \<^verbatim>\<open>ErrMsg\<close>, of the two loops; always with the ignore-case flag.
\<close>

definition tag_re :: "string \<Rightarrow> regex" where
  "tag_re tag =
     seqs [Chr CHR ''<'', Opt (lit ''ns1:''), lit tag, Chr CHR ''>'',
           Group 1 (Star (NSet [CChar CHR ''<''])),
           lit ''</'', Opt (lit ''ns1:''), lit tag, Chr CHR ''>'']"

definition getTagValue :: "string \<Rightarrow> string \<Rightarrow> string" where
  "getTagValue tag content =
     (case search True (tag_re tag) 0 content of None \<Rightarrow> [] | Some mt \<Rightarrow> grp mt 1)"

text \<open>\<^verbatim>\<open>/^(F\d+[a-z]?|FAddinfo\w+)\s+(.+)$/i\<close>\<close>

definition fieldCode_alt :: regex where
  "fieldCode_alt =
     Alt (seqs [Chr CHR ''F'', Plus (Set [CDigit]), Opt (Set [CRange CHR ''a'' CHR ''z''])])
         (Seq (lit ''FAddinfo'') (Plus (Set [CWord])))"

definition fieldCode_re :: regex where
  "fieldCode_re = seqs [Bol, Group 1 fieldCode_alt, Plus (Set [CSpace]), Group 2 (Plus Dot), Eol]"

text \<open>The body of the loop over the \<^verbatim>\<open>FplErrors\<close> elements, for one error text.\<close>

definition fieldErrorEntry :: "string \<Rightarrow> FieldError list \<Rightarrow> FieldError list" where
  "fieldErrorEntry errorText fieldErrors' =
     (if errorText \<noteq> [] then
        (case search True fieldCode_re 0 errorText of
           Some fieldMatch \<Rightarrow>
             fieldErrors' @ [\<lparr>field = grp fieldMatch 1, message = grp fieldMatch 2\<rparr>]
         | None \<Rightarrow> fieldErrors' @ [\<lparr>field = ''General'', message = errorText\<rparr>])
      else fieldErrors')"

definition parseValidationResponse :: "string \<Rightarrow> FlightPlanValidationResponse option" where
  "parseValidationResponse xml =
     (if isSessionExpiredResponse xml
      then Some \<lparr>isError = True, sessionExpired = Some True, fplIsOk = False,
                 errorMessages = None, fieldErrors = None, rawResponse = None\<rparr>
      else
        (case exec_loop (\<lambda>fplMatch. fieldErrorEntry (grp fplMatch 1)) True
                (tag_re ''FplErrors'') 0 xml [] of
           None \<Rightarrow> None
         | Some fieldErrors' \<Rightarrow>
             (case exec_loop (\<lambda>mt msgs. if grp mt 1 \<noteq> [] then msgs @ [grp mt 1] else msgs) True
                     (tag_re ''ErrMsg'') 0 xml [] of
                None \<Rightarrow> None
              | Some errorMessages' \<Rightarrow>
                  (let fplIsOk' = (getTagValue ''FplIsOk'' xml = ''1'')
                   in Some \<lparr>isError = (getTagValue ''IsError'' xml = ''1''),
                            sessionExpired = None,
                            fplIsOk = fplIsOk',
                            errorMessages =
                              (if errorMessages' \<noteq> [] then Some errorMessages' else None),
                            fieldErrors = (if fieldErrors' \<noteq> [] then Some fieldErrors' else None),
                            rawResponse = (if \<not> fplIsOk' then Some xml else None)\<rparr>))))"

section \<open>Field 18 codec (flight plan form)\<close>

text \<open>
  \<open>textFields\<close> is a JavaScript object used as a dictionary; it is kept as the list that
  \<^verbatim>\<open>Object.entries\<close> returns: the keys that are array indices first, in ascending order,
  then the other keys in the order of their creation.
\<close>

record Field18Data =
  sts :: "string list"
  pbn :: "string list"
  per :: string
  eurProtected :: bool
  rfp :: string
  stayInfo :: "string list"
  textFields :: "(string \<times> string) list"

definition dec_val :: "string \<Rightarrow> int" where
  "dec_val k = foldl (\<lambda>acc d. acc * 10 + int d) 0 (digits_prefix 10 k)"

definition is_array_index :: "string \<Rightarrow> bool" where
  "is_array_index k =
     (k \<noteq> [] \<and> list_all (\<lambda>c. c \<in> set digits) k \<and> (k = ''0'' \<or> hd k \<noteq> CHR ''0'')
      \<and> dec_val k < 4294967295)"

text \<open>\<^verbatim>\<open>obj[k] = v\<close>\<close>

definition obj_set :: "string \<Rightarrow> string \<Rightarrow> (string \<times> string) list \<Rightarrow> (string \<times> string) list" where
  "obj_set k v es =
     (if k \<in> set (map fst es) then AList.update k v es
      else if is_array_index k
      then takeWhile (\<lambda>e. is_array_index (fst e) \<and> dec_val (fst e) < dec_val k) es
           @ [(k, v)]
           @ dropWhile (\<lambda>e. is_array_index (fst e) \<and> dec_val (fst e) < dec_val k) es
      else es @ [(k, v)])"

definition buildField18String :: "Field18Data \<Rightarrow> string" where
  "buildField18String data =
     join '' ''
       ((if sts data \<noteq> [] then [''STS/'' @ join '' '' (sts data)] else [])
        @ (if pbn data \<noteq> [] then [''PBN/'' @ join [] (pbn data)] else [])
        @ (if eurProtected data then [''EUR/PROTECTED''] else [])
        @ (if per data \<noteq> [] then [''PER/'' @ per data] else [])
        @ (if rfp data \<noteq> [] then [''RFP/'' @ rfp data] else [])
        @ concat (map (\<lambda>(code, value). if value \<noteq> [] then [code @ ''/'' @ value] else [])
                      (textFields data))
        @ concat (map (\<lambda>(info, index).
                         if info \<noteq> [] then [''STAYINFO'' @ dec_str (index + 1) @ ''/'' @ info]
                         else [])
                      (zip (stayInfo data) [0 ..< length (stayInfo data)])))"

text \<open>\<^verbatim>\<open>/([A-Z0-9]+)\/([^ ]+(?:\s+[^ /]+)*?)(?=\s+[A-Z0-9]+\/|$)/g\<close>\<close>

definition code_set :: "cset list" where
  "code_set = [CRange CHR ''A'' CHR ''Z'', CRange CHR ''0'' CHR ''9'']"

definition field18_re :: regex where
  "field18_re =
     seqs [Group 1 (Plus (Set code_set)),
           Chr CHR ''/'',
           Group 2 (Seq (Plus (NSet [CChar CHR '' '']))
                        (LazyStar (Seq (Plus (Set [CSpace]))
                                       (Plus (NSet [CChar CHR '' '', CChar CHR ''/'']))))),
           Ahead (Alt (seqs [Plus (Set [CSpace]), Plus (Set code_set), Chr CHR ''/'']) Eol)]"

text \<open>\<^verbatim>\<open>/[A-Z]\d/g\<close>\<close>

definition pbn_re :: regex where
  "pbn_re = Seq (Set [CRange CHR ''A'' CHR ''Z'']) (Set [CDigit])"

definition emptyField18Data :: Field18Data where
  "emptyField18Data =
     \<lparr>sts = [], pbn = [], per = [], eurProtected = False, rfp = [],
      stayInfo = replicate 9 [], textFields = []\<rparr>"

text \<open>The body of the loop over the matches, for the text of one match.\<close>

definition field18_token :: "string \<Rightarrow> Field18Data \<Rightarrow> Field18Data" where
  "field18_token match data =
     (let slashIndex = index_of match ''/'';
          code = (case slashIndex of None \<Rightarrow> [] | Some i \<Rightarrow> take i match);
          value = (case slashIndex of None \<Rightarrow> match | Some i \<Rightarrow> drop (i + 1) match)
      in if code = ''STS'' then data\<lparr>sts := filter (\<lambda>x. x \<noteq> []) (split_str '' '' value)\<rparr>
         else if code = ''PBN'' then data\<lparr>pbn := map m_text (match_all False pbn_re 0 value)\<rparr>
         else if code = ''PER'' then data\<lparr>per := value\<rparr>
         else if code = ''EUR'' \<and> value = ''PROTECTED'' then data\<lparr>eurProtected := True\<rparr>
         else if code = ''RFP'' then data\<lparr>rfp := value\<rparr>
         else if starts_with code ''STAYINFO'' then
           (case parseInt (replace_first code ''STAYINFO'' []) of
              None \<Rightarrow> data
            | Some num \<Rightarrow>
                if num \<ge> 1 \<and> num \<le> 9
                then data\<lparr>stayInfo := (stayInfo data)[nat (num - 1) := value]\<rparr>
                else data)
         else data\<lparr>textFields := obj_set code value (textFields data)\<rparr>)"

definition parseField18String :: "string \<Rightarrow> Field18Data" where
  "parseField18String str =
     (if str = [] then emptyField18Data
      else fold field18_token (map m_text (match_all False field18_re 0 str)) emptyField18Data)"

section \<open>Field 19 codec (flight plan form)\<close>

record Field19Data =
  endurance :: string
  persons :: string
  radioUhf :: bool
  radioVhf :: bool
  radioElba :: bool
  survivalPolar :: bool
  survivalDesert :: bool
  survivalMaritime :: bool
  survivalJungle :: bool
  jacketsLight :: bool
  jacketsFluores :: bool
  jacketsUhf :: bool
  jacketsVhf :: bool
  dinghiesEnabled :: bool
  dinghiesNumber :: string
  dinghiesCapacity :: string
  dinghiesCover :: bool
  dinghiesColour :: string
  aircraftColour :: string
  remarks :: string
  pilotInCommand :: string

definition defaultField19Data :: Field19Data where
  "defaultField19Data =
     \<lparr>endurance = [], persons = [],
      radioUhf = False, radioVhf = True, radioElba = True,
      survivalPolar = False, survivalDesert = False, survivalMaritime = False,
      survivalJungle = False,
      jacketsLight = False, jacketsFluores = False, jacketsUhf = False, jacketsVhf = False,
      dinghiesEnabled = False, dinghiesNumber = [], dinghiesCapacity = [],
      dinghiesCover = False, dinghiesColour = [],
      aircraftColour = [], remarks = [], pilotInCommand = []\<rparr>"

definition backslash :: char where
  "backslash = CHR 0x5C"

text \<open>The token \<^verbatim>\<open>X\value\<close>.\<close>

definition tok :: "char \<Rightarrow> string \<Rightarrow> string" where
  "tok c v = c # backslash # v"

definition letters :: "(bool \<times> char) list \<Rightarrow> string" where
  "letters bs = map snd (filter fst bs)"

definition dinghyPart :: "Field19Data \<Rightarrow> string" where
  "dinghyPart data =
     tok CHR ''D'' (dinghiesNumber data)
     @ (if dinghiesCapacity data \<noteq> [] then '' '' @ dinghiesCapacity data else [])
     @ (if dinghiesCover data then '' C'' else [])
     @ (if dinghiesColour data \<noteq> [] then '' '' @ dinghiesColour data else [])"

definition field19Parts :: "Field19Data \<Rightarrow> string list" where
  "field19Parts data =
     (let radio = letters [(radioUhf data, CHR ''U''), (radioVhf data, CHR ''V''),
                           (radioElba data, CHR ''E'')];
          survival = letters [(survivalPolar data, CHR ''P''), (survivalDesert data, CHR ''D''),
                              (survivalMaritime data, CHR ''M''), (survivalJungle data, CHR ''J'')];
          jackets = letters [(jacketsLight data, CHR ''L''), (jacketsFluores data, CHR ''F''),
                             (jacketsUhf data, CHR ''U''), (jacketsVhf data, CHR ''V'')]
      in (if endurance data \<noteq> [] then [tok CHR ''E'' (endurance data)] else [])
         @ (if persons data \<noteq> [] then [tok CHR ''P'' (persons data)] else [])
         @ (if radio \<noteq> [] then [tok CHR ''R'' radio] else [])
         @ (if survival \<noteq> [] then [tok CHR ''S'' survival] else [])
         @ (if jackets \<noteq> [] then [tok CHR ''J'' jackets] else [])
         @ (if dinghiesEnabled data \<and> dinghiesNumber data \<noteq> [] then [dinghyPart data] else [])
         @ (if aircraftColour data \<noteq> [] then [tok CHR ''A'' (aircraftColour data)] else [])
         @ (if remarks data \<noteq> [] then [tok CHR ''N'' (remarks data)] else [])
         @ (if pilotInCommand data \<noteq> [] then [tok CHR ''C'' (pilotInCommand data)] else []))"

definition buildField19String :: "Field19Data \<Rightarrow> string" where
  "buildField19String data = join '' '' (field19Parts data)"

text \<open>\<^verbatim>\<open>/([A-Z])\\([^ ]*)/g\<close>\<close>

definition field19_re :: regex where
  "field19_re =
     seqs [Group 1 (Set [CRange CHR ''A'' CHR ''Z'']), Chr backslash,
           Group 2 (Star (NSet [CChar CHR '' '']))]"

text \<open>
  The two meanings of a \<^verbatim>\<open>C\<close> token: the test
  \<^verbatim>\<open>str.indexOf(`C\\${value}`) > str.indexOf('D\\')\<close>.
\<close>

definition isPilotToken :: "string \<Rightarrow> string \<Rightarrow> bool" where
  "isPilotToken str value =
     (index_of_int str (tok CHR ''C'' value) > index_of_int str (tok CHR ''D'' []))"

text \<open>The body of the loop: the \<^verbatim>\<open>switch\<close> on the code of one token.\<close>

definition field19_switch :: "string \<Rightarrow> string \<Rightarrow> string \<Rightarrow> Field19Data \<Rightarrow> Field19Data" where
  "field19_switch str code value data =
     (if code = ''E'' then data\<lparr>endurance := value\<rparr>
      else if code = ''P'' then data\<lparr>persons := value\<rparr>
      else if code = ''R'' then
        data\<lparr>radioUhf := str_includes value ''U'', radioVhf := str_includes value ''V'',
             radioElba := str_includes value ''E''\<rparr>
      else if code = ''S'' then
        data\<lparr>survivalPolar := str_includes value ''P'', survivalDesert := str_includes value ''D'',
             survivalMaritime := str_includes value ''M'',
             survivalJungle := str_includes value ''J''\<rparr>
      else if code = ''J'' then
        data\<lparr>jacketsLight := str_includes value ''L'', jacketsFluores := str_includes value ''F'',
             jacketsUhf := str_includes value ''U'', jacketsVhf := str_includes value ''V''\<rparr>
      else if code = ''D'' then data\<lparr>dinghiesEnabled := True, dinghiesNumber := value\<rparr>
      else if code = ''A'' then data\<lparr>aircraftColour := value\<rparr>
      else if code = ''N'' then data\<lparr>remarks := value\<rparr>
      else if code = ''C'' then
        (if isPilotToken str value then data\<lparr>pilotInCommand := value\<rparr>
         else data\<lparr>dinghiesCover := True\<rparr>)
      else data)"

definition field19_token :: "string \<Rightarrow> rx_match \<Rightarrow> Field19Data \<Rightarrow> Field19Data" where
  "field19_token str mt data = field19_switch str (grp mt 1) (grp mt 2) data"

definition parseField19String :: "string \<Rightarrow> Field19Data option" where
  "parseField19String str =
     (if str = [] then Some defaultField19Data
      else exec_loop (field19_token str) False field19_re 0 str defaultField19Data)"

section \<open>Notions of the specification\<close>

text \<open>
  A leading field code, in the words of the specification: \<^verbatim>\<open>F\<close>, digits and an optional
  letter, or the longer form \<^verbatim>\<open>FAddinfo\<close> followed by word characters, in upper or lower
  case. The optional letter does not change whether a string starts with such a code.
\<close>

definition leading_field_code :: "string \<Rightarrow> bool" where
  "leading_field_code s =
     ((case s of c # d # rest \<Rightarrow> ascii_upper c = CHR ''F'' \<and> d \<in> set digits | _ \<Rightarrow> False)
      \<or> (map ascii_lower (take 8 s) = ''faddinfo''
          \<and> (case drop 8 s of x # rest \<Rightarrow> in_cset CWord x | [] \<Rightarrow> False)))"

section \<open>Example portals\<close>

text \<open>
  A landing page with the constructor call, a portal that answers the login request with
  status 500, and a portal that accepts the login and redirects the first request for the
  landing page.
\<close>

definition landing_page :: string where
  "landing_page =
     ''<script>var app = new AppController('' @ [CHR 0x22] @ ''tok2'' @ [CHR 0x22] @ '', ''
       @ [CHR 0x22] @ ''sess9'' @ [CHR 0x22] @ '', '' @ [CHR 0x22] @ ''/ixo'' @ [CHR 0x22]
       @ '');</script>''"

definition portal_rejecting :: "http_request \<Rightarrow> http_response option" where
  "portal_rejecting req =
     (if req_method req = ''POST''
      then Some \<lparr>rsp_status = 500, rsp_set_cookie = None, rsp_location = None, rsp_body = []\<rparr>
      else Some \<lparr>rsp_status = 200, rsp_set_cookie = None, rsp_location = None,
                 rsp_body = landing_page\<rparr>)"

definition portal_accepting :: "http_request \<Rightarrow> http_response option" where
  "portal_accepting req =
     (if req_method req = ''POST''
      then Some \<lparr>rsp_status = 200, rsp_set_cookie = Some ''sid=abc; Path=/'',
                 rsp_location = None, rsp_body = ''<LoginOK>1</LoginOK>''\<rparr>
      else if req_redirect_manual req
      then Some \<lparr>rsp_status = 302, rsp_set_cookie = None,
                 rsp_location = Some ''/ixo/index.php?start'', rsp_body = []\<rparr>
      else Some \<lparr>rsp_status = 200, rsp_set_cookie = Some ''lang=en'', rsp_location = None,
                 rsp_body = landing_page\<rparr>)"

section \<open>Tokens of Field 19\<close>

text \<open>
  The match of the Field 19 pattern at a capital letter \<open>c\<close> followed by a backslash:
  the value runs up to the next space. The lemmas below show that these are the matches
  that the matcher finds.
\<close>

definition is_upper :: "char \<Rightarrow> bool" where
  "is_upper c = in_range CHR ''A'' CHR ''Z'' c"

definition value_run :: "string \<Rightarrow> string" where
  "value_run s = takeWhile (\<lambda>x. x \<noteq> CHR '' '') s"

definition token_match :: "nat \<Rightarrow> char \<Rightarrow> string \<Rightarrow> rx_match" where
  "token_match p c rest =
     \<lparr>m_index = p, m_end = p + 2 + length (value_run rest),
      m_text = tok c (value_run rest),
      m_groups = [(1, [c]), (2, value_run rest)]\<rparr>"

text \<open>An input with a dinghy token and a pilot token, and the match of its pilot token.\<close>

definition example19 :: string where
  "example19 = tok CHR ''D'' ''1'' @ '' '' @ tok CHR ''C'' ''SMITH''"

definition example19_token :: rx_match where
  "example19_token = token_match 4 CHR ''C'' ''SMITH''"

section \<open>The encoder's parts as pairs\<close>

text \<open>
  The parts of \<open>buildField19String\<close> as pairs of a code letter and a value: those before
  the dinghy part, the value of the dinghy part, and those after it. \<open>field19Parts\<close> is
  the list of their tokens when there is a dinghy part (lemma \<open>field19Parts_shape\<close>).
  \<open>has_pair a b s\<close>: the characters \<open>a\<close>, \<open>b\<close> occur next to each other in \<open>s\<close>.
  \<open>text_fields\<close> are the sub-fields of free text.
\<close>

fun has_pair :: "char \<Rightarrow> char \<Rightarrow> string \<Rightarrow> bool" where
  "has_pair a b [] = False"
| "has_pair a b [x] = False"
| "has_pair a b (x # y # r) = ((x = a \<and> y = b) \<or> has_pair a b (y # r))"

definition codeValue :: "char \<times> string \<Rightarrow> string" where
  "codeValue e = tok (fst e) (snd e)"

definition dinghyValue :: "Field19Data \<Rightarrow> string" where
  "dinghyValue data =
     dinghiesNumber data
     @ (if dinghiesCapacity data \<noteq> [] then '' '' @ dinghiesCapacity data else [])
     @ (if dinghiesCover data then '' C'' else [])
     @ (if dinghiesColour data \<noteq> [] then '' '' @ dinghiesColour data else [])"

definition beforeDinghy :: "Field19Data \<Rightarrow> (char \<times> string) list" where
  "beforeDinghy data =
     (let radio = letters [(radioUhf data, CHR ''U''), (radioVhf data, CHR ''V''),
                           (radioElba data, CHR ''E'')];
          survival = letters [(survivalPolar data, CHR ''P''), (survivalDesert data, CHR ''D''),
                              (survivalMaritime data, CHR ''M''), (survivalJungle data, CHR ''J'')];
          jackets = letters [(jacketsLight data, CHR ''L''), (jacketsFluores data, CHR ''F''),
                             (jacketsUhf data, CHR ''U''), (jacketsVhf data, CHR ''V'')]
      in (if endurance data \<noteq> [] then [(CHR ''E'', endurance data)] else [])
         @ (if persons data \<noteq> [] then [(CHR ''P'', persons data)] else [])
         @ (if radio \<noteq> [] then [(CHR ''R'', radio)] else [])
         @ (if survival \<noteq> [] then [(CHR ''S'', survival)] else [])
         @ (if jackets \<noteq> [] then [(CHR ''J'', jackets)] else []))"

definition afterDinghy :: "Field19Data \<Rightarrow> (char \<times> string) list" where
  "afterDinghy data =
     (if aircraftColour data \<noteq> [] then [(CHR ''A'', aircraftColour data)] else [])
     @ (if remarks data \<noteq> [] then [(CHR ''N'', remarks data)] else [])
     @ (if pilotInCommand data \<noteq> [] then [(CHR ''C'', pilotInCommand data)] else [])"

definition token_pair :: "rx_match \<Rightarrow> string \<times> string" where
  "token_pair mt = (grp mt 1, grp mt 2)"

definition switch_pair :: "string \<Rightarrow> string \<times> string \<Rightarrow> Field19Data \<Rightarrow> Field19Data" where
  "switch_pair str e data = field19_switch str (fst e) (snd e) data"

definition text_fields :: "Field19Data \<Rightarrow> string list" where
  "text_fields data =
     [endurance data, persons data, dinghiesNumber data, dinghiesCapacity data,
      dinghiesColour data, aircraftColour data, remarks data, pilotInCommand data]"

text \<open>
  Three records with a dinghy block: an aircraft colour that holds the text of a dinghy
  token, a persons value that holds the text of a \<^verbatim>\<open>C\\<close> token, and one of plain values.
\<close>

definition example10 :: Field19Data where
  "example10 =
     defaultField19Data\<lparr>aircraftColour := ''RED D'' @ [backslash] @ ''9'',
       dinghiesEnabled := True, dinghiesNumber := ''2'', dinghiesCover := True\<rparr>"

definition example10b :: Field19Data where
  "example10b =
     defaultField19Data\<lparr>persons := '' C'' @ [backslash],
       dinghiesEnabled := True, dinghiesNumber := ''2'', dinghiesCover := True\<rparr>"

definition example10c :: Field19Data where
  "example10c =
     defaultField19Data\<lparr>endurance := ''0500'', dinghiesEnabled := True, dinghiesNumber := ''2'',
       dinghiesCapacity := ''8'', dinghiesCover := True, dinghiesColour := ''YELLOW'',
       remarks := ''NIL'', pilotInCommand := ''SMITH''\<rparr>"

section \<open>Cookie headers of plain pairs\<close>

text \<open>
  A cookie header of plain pairs is the text \<open>formatCookies es\<close> of a list \<open>es\<close> of names and
  values that are not empty and hold neither \<^verbatim>\<open>=\<close> nor \<^verbatim>\<open>;\<close>. \<open>set_all es m\<close> sets the
  pairs of \<open>es\<close> in the map \<open>m\<close>, in order.
\<close>

definition plain_text :: "string \<Rightarrow> bool" where
  "plain_text s = (s \<noteq> [] \<and> CHR ''='' \<notin> set s \<and> CHR '';'' \<notin> set s)"

definition plain_cookies :: "cookie_map \<Rightarrow> bool" where
  "plain_cookies es = list_all (\<lambda>e. plain_text (fst e) \<and> plain_text (snd e)) es"

definition set_all :: "cookie_map \<Rightarrow> cookie_map \<Rightarrow> cookie_map" where
  "set_all es m = fold (\<lambda>(key, value) cookieMap. AList.update key value cookieMap) es m"

definition cookie_text :: "string \<times> string \<Rightarrow> string" where
  "cookie_text e = fst e @ ''='' @ snd e"

section \<open>Properties of strings and of the matcher\<close>

lemma starts_with_iff: "starts_with s p \<longleftrightarrow> (\<exists>post. s = p @ post)"
  by (induction s p rule: starts_with.induct) auto

lemma index_of_None_iff: "index_of s p = None \<longleftrightarrow> \<not> (\<exists>pre post. s = pre @ p @ post)"
proof (induction s)
  case Nil
  then show ?case by auto
next
  case (Cons c cs)
  show ?case
  proof (cases "starts_with (c # cs) p")
    case True
    then obtain post where "c # cs = [] @ p @ post" by (auto simp: starts_with_iff)
    then have "\<exists>pre post. c # cs = pre @ p @ post" by blast
    with True show ?thesis by simp
  next
    case False
    have "(\<exists>pre post. c # cs = pre @ p @ post) \<longleftrightarrow> (\<exists>pre post. cs = pre @ p @ post)"
    proof
      assume "\<exists>pre post. c # cs = pre @ p @ post"
      then obtain pre post where e: "c # cs = pre @ p @ post" by blast
      show "\<exists>pre post. cs = pre @ p @ post"
      proof (cases pre)
        case Nil
        with e have "starts_with (c # cs) p" by (auto simp: starts_with_iff)
        with False show ?thesis by simp
      next
        case (Cons a pre')
        with e have "cs = pre' @ p @ post" by simp
        then show ?thesis by blast
      qed
    next
      assume "\<exists>pre post. cs = pre @ p @ post"
      then obtain pre post where "cs = pre @ p @ post" by blast
      then have "c # cs = (c # pre) @ p @ post" by simp
      then show "\<exists>pre post. c # cs = pre @ p @ post" by blast
    qed
    with False Cons show ?thesis by simp
  qed
qed

lemma str_includes_iff: "str_includes s p \<longleftrightarrow> (\<exists>pre post. s = pre @ p @ post)"
  using index_of_None_iff [of s p] by (simp add: str_includes_def)

lemma search_finds:
  "rmatch ic r (p + length pre, s, []) \<noteq> [] \<Longrightarrow> search ic r p (pre @ s) \<noteq> None"
proof (induction pre arbitrary: p)
  case Nil
  then show ?case by (cases s) (auto simp: match_at_def split: list.splits)
next
  case (Cons a pre)
  from Cons.prems have "rmatch ic r (Suc p + length pre, s, []) \<noteq> []" by simp
  from Cons.IH [OF this] show ?case by (simp split: option.splits)
qed

lemma rmatch_Seq_mem:
  "st1 \<in> set (rmatch ic r1 st) \<Longrightarrow> st2 \<in> set (rmatch ic r2 st1) \<Longrightarrow>
   st2 \<in> set (rmatch ic (Seq r1 r2) st)"
  by auto

lemma rmatch_lit_mem:
  "map (canon ic) w = map (canon ic) l \<Longrightarrow>
   (p + length w, post, caps) \<in> set (rmatch ic (lit l) (p, w @ post, caps))"
proof (induction l arbitrary: w p)
  case Nil
  then show ?case by (simp add: lit_def)
next
  case (Cons a l)
  then obtain b w' where w: "w = b # w'" and b: "canon ic b = canon ic a"
    and w': "map (canon ic) w' = map (canon ic) l" by (cases w) auto
  from Cons.IH [OF w', of "Suc p"] b show ?case
    by (simp add: w lit_def one_char_def)
qed

lemma repeat_dot_mem:
  "\<forall>c\<in>set x. \<not> is_line_terminator c \<Longrightarrow> length x \<le> n \<Longrightarrow>
   (p + length x, y, caps) \<in> set (repeat_matcher (rmatch ic Dot) g n (p, x @ y, caps))"
proof (induction x arbitrary: p n)
  case Nil
  then show ?case by (cases n) (auto simp: Let_def)
next
  case (Cons a x)
  then obtain n' where n: "n = Suc n'" and le: "length x \<le> n'" by (cases n) auto
  from Cons.prems have nl: "\<forall>c\<in>set x. \<not> is_line_terminator c" and a: "\<not> is_line_terminator a"
    by auto
  from Cons.IH [OF nl le, of "Suc p"] a show ?case
    by (auto simp: n Let_def one_char_def)
qed

lemma rmatch_star_dot_mem:
  "\<forall>c\<in>set x. \<not> is_line_terminator c \<Longrightarrow>
   (p + length x, y, caps) \<in> set (rmatch ic (Star Dot) (p, x @ y, caps))"
  using repeat_dot_mem [of x "length (x @ y)" p y caps ic True] by simp

lemma upper_lower: "ascii_upper (ascii_lower c) = ascii_upper c"
  by (simp add: ascii_upper_def ascii_lower_def lowers_def uppers_def)

lemma canon_of_lower:
  "map ascii_lower w = l \<Longrightarrow> map (canon True) w = map (canon True) l"
proof -
  assume "map ascii_lower w = l"
  then have "map (canon True) l = map (canon True \<circ> ascii_lower) w" by auto
  also have "\<dots> = map (canon True) w" by (simp add: canon_def upper_lower)
  finally show ?thesis by simp
qed

lemma lower_space: "ascii_lower c = CHR '' '' \<Longrightarrow> c = CHR '' ''"
  by (auto simp: ascii_lower_def lowers_def uppers_def split: if_splits)

lemma session_gap_expired_test:
  assumes w1: "map ascii_lower w1 = ''session''"
    and x: "\<forall>c\<in>set x. \<not> is_line_terminator c"
    and w2: "map ascii_lower w2 = ''expired''"
  shows "regex_test True (seqs [lit ''session'', Star Dot, lit ''expired''])
           (pre @ w1 @ x @ w2 @ post)"
proof -
  let ?p = "length pre"
  have l1: "length w1 = 7" and l2: "length w2 = 7"
    using arg_cong [OF w1, of length] arg_cong [OF w2, of length] by simp_all
  have a: "(?p + length w1, x @ w2 @ post, [])
             \<in> set (rmatch True (lit ''session'') (?p, w1 @ x @ w2 @ post, []))"
    by (rule rmatch_lit_mem) (rule canon_of_lower [OF w1])
  have b: "(?p + length w1 + length x, w2 @ post, [])
             \<in> set (rmatch True (Star Dot) (?p + length w1, x @ w2 @ post, []))"
    by (rule rmatch_star_dot_mem) (rule x)
  have c: "(?p + length w1 + length x + length w2, post, [])
             \<in> set (rmatch True (lit ''expired'') (?p + length w1 + length x, w2 @ post, []))"
    by (rule rmatch_lit_mem) (rule canon_of_lower [OF w2])
  have "(?p + length w1 + length x + length w2, post, [])
          \<in> set (rmatch True (seqs [lit ''session'', Star Dot, lit ''expired''])
                   (0 + ?p, w1 @ x @ w2 @ post, []))"
    using rmatch_Seq_mem [OF a rmatch_Seq_mem [OF b c]] by simp
  then have "rmatch True (seqs [lit ''session'', Star Dot, lit ''expired''])
               (0 + ?p, w1 @ x @ w2 @ post, []) \<noteq> []"
    by (metis empty_iff empty_set)
  from search_finds [OF this] show ?thesis by (simp add: regex_test_def)
qed

lemma session_expired_test:
  assumes "map ascii_lower w = ''session expired''"
  shows "regex_test True (seqs [lit ''session'', Star Dot, lit ''expired'']) (pre @ w @ post)"
proof -
  from assms have "map ascii_lower w = ''session'' @ '' expired''" by simp
  then have "\<exists>w1 r. w = w1 @ r \<and> ''session'' = map ascii_lower w1
                \<and> '' expired'' = map ascii_lower r"
    by (simp only: map_eq_append_conv)
  then obtain w1 r where w: "w = w1 @ r" and w1: "map ascii_lower w1 = ''session''"
    and r: "map ascii_lower r = '' expired''"
    by (elim exE conjE) (rule that, simp_all only:)
  from r have "\<exists>c w2. r = c # w2 \<and> ascii_lower c = CHR '' '' \<and> map ascii_lower w2 = ''expired''"
    by (cases r) simp_all
  then obtain c w2 where rc: "r = c # w2" and c: "ascii_lower c = CHR '' ''"
    and w2: "map ascii_lower w2 = ''expired''" by (elim exE conjE)
  from c have "\<forall>d\<in>set [c]. \<not> is_line_terminator d"
    by (auto dest!: lower_space simp: is_line_terminator_def)
  from session_gap_expired_test [OF w1 this w2, of pre post] show ?thesis
    by (simp add: w rc)
qed

text \<open>
  Claim C1. For every response body, the session-expiry classifier answers expired when
  the body contains the literal text \<^verbatim>\<open><!DOCTYPE html\<close>, whatever else it holds, and
  when it contains \<^verbatim>\<open>Session Expired\<close> in any mix of upper and lower case.
\<close>

theorem C1_session_expiry_classifier:
  "(str_includes xml ''<!DOCTYPE html'' \<longrightarrow> isSessionExpiredResponse xml)
   \<and> ((\<exists>pre w post. xml = pre @ w @ post \<and> map ascii_lower w = ''session expired'')
        \<longrightarrow> isSessionExpiredResponse xml)"
proof (intro conjI impI)
  assume "str_includes xml ''<!DOCTYPE html''"
  then show "isSessionExpiredResponse xml"
    by (simp only: isSessionExpiredResponse_def simp_thms if_True if_cancel)
next
  assume "\<exists>pre w post. xml = pre @ w @ post \<and> map ascii_lower w = ''session expired''"
  then obtain pre w post where x: "xml = pre @ w @ post"
    and w: "map ascii_lower w = ''session expired''" by (elim exE conjE)
  have "regex_test True (seqs [lit ''session'', Star Dot, lit ''expired'']) xml"
    using session_expired_test [OF w, of pre post] by (simp only: x)
  then have "list_ex (\<lambda>pattern. regex_test True pattern xml) SESSION_EXPIRY_PATTERNS"
    by (simp only: SESSION_EXPIRY_PATTERNS_def list_ex_Cons_iff simp_thms)
  then show "isSessionExpiredResponse xml"
    by (simp only: isSessionExpiredResponse_def if_True)
qed

text \<open>A body that satisfies both hypotheses of C1.\<close>

theorem C1_witness:
  "str_includes ''<!DOCTYPE html><p>SESSION Expired</p>'' ''<!DOCTYPE html''
   \<and> (\<exists>pre w post. ''<!DOCTYPE html><p>SESSION Expired</p>'' = pre @ w @ post
         \<and> map ascii_lower w = ''session expired'')
   \<and> isSessionExpiredResponse ''<!DOCTYPE html><p>SESSION Expired</p>''"
proof -
  let ?xml = "''<!DOCTYPE html><p>SESSION Expired</p>''"
  have a: "str_includes ?xml ''<!DOCTYPE html''"
    by (simp add: str_includes_def)
  have b: "\<exists>pre w post. ?xml = pre @ w @ post \<and> map ascii_lower w = ''session expired''"
    by (rule exI [of _ "''<!DOCTYPE html><p>''"], rule exI [of _ "''SESSION Expired''"],
        rule exI [of _ "''</p>''"])
       (simp add: ascii_lower_def lowers_def uppers_def)
  have "str_includes ?xml ''<!DOCTYPE html'' \<longrightarrow> isSessionExpiredResponse ?xml"
    using C1_session_expiry_classifier [of ?xml] by (rule conjunct1)
  then have c: "isSessionExpiredResponse ?xml" using a by (rule mp)
  show ?thesis using a b c by (intro conjI)
qed

lemma js_and_small [simp]:
  "js_and 7 7 = 7" "js_and 4 7 = 4" "js_and 4 4 = 4" "js_and 16 7 = 0" "js_and 16 4 = 0"
  "js_and 16 16 = 16" "js_and 3 7 = 3" "js_and 3 4 = 0" "js_and 3 16 = 0" "js_and 3 3 = 3"
  "js_and 1 7 = 1" "js_and 1 4 = 0" "js_and 1 16 = 0" "js_and 1 3 = 1" "js_and 1 1 = 1"
  by (simp_all add: js_and_def to_int32_def)

section \<open>Action buttons\<close>

text \<open>
  Claim C8, as stated, at status 48 and bitmask 16: the claim has the arrival report
  permitted there; the decision is negative and no button is rendered, none for an
  arrival report in particular.
\<close>

theorem C8_counterexample:
  "canPerformActions 48 16 = False \<and> ARR \<notin> set (actionButtons False 48 16)"
  by (simp add: actionButtons_def canPerformActions_def)

text \<open>
  Claim C8, amended. Whatever the status, the bitmasks 7, 4 and 16 permit no action. The
  bitmasks 3 and 1 with an accepted status (48 or 53) permit delay and cancel. A status
  that is not accepted permits no action, whatever the bitmask.
\<close>

theorem C8_action_permission:
  "actionButtons isArchive statusCode 7 = []
   \<and> actionButtons isArchive statusCode 4 = []
   \<and> actionButtons isArchive statusCode 16 = []
   \<and> (accepted = 48 \<or> accepted = 53 \<longrightarrow>
        canPerformActions accepted 3 \<and> canPerformActions accepted 1
        \<and> actionButtons False accepted 3 = [DLA, CNL]
        \<and> actionButtons False accepted 1 = [DLA, CNL])
   \<and> (other \<noteq> 48 \<and> other \<noteq> 53 \<longrightarrow>
        \<not> canPerformActions other flCanDo \<and> actionButtons isArchive other flCanDo = [])"
  by (auto simp: actionButtons_def canPerformActions_def)

text \<open>C8 at status 48, accepted, and at status 11, not accepted.\<close>

theorem C8_witness:
  "((48::int) = 48 \<or> (48::int) = 53) \<and> actionButtons False 48 3 = [DLA, CNL]
   \<and> actionButtons False 48 1 = [DLA, CNL]
   \<and> (11::int) \<noteq> 48 \<and> (11::int) \<noteq> 53 \<and> actionButtons False 11 3 = []"
  using C8_action_permission [of False 48 48 11 3] by simp

section \<open>Session store\<close>

lemma getSession_expired:
  "sessions st sid = Some s \<Longrightarrow> expiresAt s < now1 \<Longrightarrow>
   getSession now1 now2 sid st = (None, st\<lparr>sessions := (sessions st)(sid := None)\<rparr>)"
  by (simp add: getSession_def)

lemma getSession_valid:
  "sessions st sid = Some s \<Longrightarrow> now1 \<le> expiresAt s \<Longrightarrow>
   getSession now1 now2 sid st =
     (Some (s\<lparr>expiresAt := now2 + SESSION_TIMEOUT\<rparr>),
      st\<lparr>sessions := (sessions st)(sid \<mapsto> s\<lparr>expiresAt := now2 + SESSION_TIMEOUT\<rparr>)\<rparr>)"
  by (simp add: getSession_def Let_def)

lemma getSession_run_every_20:
  "sessions st sid = Some s \<Longrightarrow> expiresAt s = t + SESSION_TIMEOUT \<Longrightarrow>
   every_20_minutes t ts \<Longrightarrow> list_all (\<lambda>r. r \<noteq> None) (getSession_run ts sid st)"
proof (induction ts arbitrary: st s t)
  case Nil
  then show ?case by simp
next
  case (Cons a ts)
  obtain now1 now2 where a: "a = (now1, now2)" by (cases a)
  from Cons.prems a have le: "now1 \<le> expiresAt s" and rest: "every_20_minutes now2 ts"
    by (simp_all add: SESSION_TIMEOUT_def)
  let ?s' = "s\<lparr>expiresAt := now2 + SESSION_TIMEOUT\<rparr>"
  let ?st' = "st\<lparr>sessions := (sessions st)(sid \<mapsto> ?s')\<rparr>"
  have g: "getSession now1 now2 sid st = (Some ?s', ?st')"
    by (rule getSession_valid [OF Cons.prems(1) le])
  have "list_all (\<lambda>r. r \<noteq> None) (getSession_run ts sid ?st')"
    by (rule Cons.IH [of ?st' ?s' now2]) (simp_all add: rest)
  with g show ?case by (simp add: a)
qed

text \<open>
  Claim C3. \<open>getSession\<close> answers not-found and deletes the entry when the clock is past the
  stored expiry; a successful call sets the expiry to the clock plus 30 minutes. So every
  call of a caller that comes back within 20 minutes succeeds, and a call 31 minutes or
  more after the last extension finds the session absent and leaves it deleted.
\<close>

theorem C3_sliding_expiry:
  "(sessions st sid = Some s \<and> expiresAt s < a \<longrightarrow>
      fst (getSession a b sid st) = None
      \<and> sessions (snd (getSession a b sid st)) sid = None)
   \<and> (sessions st sid = Some s \<and> c \<le> expiresAt s \<longrightarrow>
      fst (getSession c d sid st) = Some (s\<lparr>expiresAt := d + 30 * 60 * 1000\<rparr>)
      \<and> sessions (snd (getSession c d sid st)) sid = Some (s\<lparr>expiresAt := d + 30 * 60 * 1000\<rparr>))
   \<and> (sessions st sid = Some s \<and> expiresAt s = t + 30 * 60 * 1000 \<and> every_20_minutes t ts \<longrightarrow>
      list_all (\<lambda>r. r \<noteq> None) (getSession_run ts sid st))
   \<and> (sessions st sid = Some s \<and> expiresAt s = t + 30 * 60 * 1000 \<and> t + 31 * 60 * 1000 \<le> e \<longrightarrow>
      fst (getSession e f sid st) = None
      \<and> sessions (snd (getSession e f sid st)) sid = None)"
proof (intro conjI impI)
  assume "sessions st sid = Some s \<and> expiresAt s < a"
  then show "fst (getSession a b sid st) = None"
    and "sessions (snd (getSession a b sid st)) sid = None"
    by (simp_all add: getSession_expired)
next
  assume "sessions st sid = Some s \<and> c \<le> expiresAt s"
  then show "fst (getSession c d sid st) = Some (s\<lparr>expiresAt := d + 30 * 60 * 1000\<rparr>)"
    and "sessions (snd (getSession c d sid st)) sid = Some (s\<lparr>expiresAt := d + 30 * 60 * 1000\<rparr>)"
    by (simp_all add: getSession_valid SESSION_TIMEOUT_def)
next
  assume "sessions st sid = Some s \<and> expiresAt s = t + 30 * 60 * 1000 \<and> every_20_minutes t ts"
  then show "list_all (\<lambda>r. r \<noteq> None) (getSession_run ts sid st)"
    using getSession_run_every_20 [of st sid s t ts] by (simp add: SESSION_TIMEOUT_def)
next
  assume "sessions st sid = Some s \<and> expiresAt s = t + 30 * 60 * 1000 \<and> t + 31 * 60 * 1000 \<le> e"
  then have "sessions st sid = Some s" and "expiresAt s < e" by simp_all
  then show "fst (getSession e f sid st) = None"
    and "sessions (snd (getSession e f sid st)) sid = None"
    by (simp_all add: getSession_expired)
qed

text \<open>
  C3 on the example store: a call after 31 minutes, a call after 20 minutes, and three
  calls 20 minutes apart.
\<close>

theorem C3_witness:
  "sessions example_store ''id'' = Some example_session
   \<and> expiresAt example_session < 1860000
   \<and> fst (getSession 1860000 1860001 ''id'' example_store) = None
   \<and> sessions (snd (getSession 1860000 1860001 ''id'' example_store)) ''id'' = None
   \<and> 1200000 \<le> expiresAt example_session
   \<and> fst (getSession 1200000 1200001 ''id'' example_store)
        = Some (example_session\<lparr>expiresAt := 3000001\<rparr>)
   \<and> expiresAt example_session = 0 + 30 * 60 * 1000
   \<and> every_20_minutes 0 [(1200000, 1200001), (2400001, 2400002), (3600002, 3600002)]
   \<and> list_all (\<lambda>r. r \<noteq> None)
        (getSession_run [(1200000, 1200001), (2400001, 2400002), (3600002, 3600002)] ''id''
           example_store)
   \<and> (0::int) + 31 * 60 * 1000 \<le> 1860000"
proof -
  have s: "sessions example_store ''id'' = Some example_session"
    by (simp add: example_store_def example_session_def activateSession_def SESSION_TIMEOUT_def)
  have e: "expiresAt example_session = 1800000" by (simp add: example_session_def)
  have r: "every_20_minutes 0 [(1200000, 1200001), (2400001, 2400002), (3600002, 3600002)]"
    by simp
  show ?thesis
    using C3_sliding_expiry [of example_store "''id''" example_session 1860000 1860001
        1200000 1200001 0 "[(1200000, 1200001), (2400001, 2400002), (3600002, 3600002)]"
        1860000 1860001] s e r
    by simp
qed

section \<open>Field 18 and Field 19: the two examples\<close>

text \<open>
  Claim C4. The Field 18 data with \<open>sts = ["SAR"]\<close>, \<open>pbn = ["B2", "D2"]\<close>, \<open>per = "C"\<close> and
  nothing else is encoded as \<^verbatim>\<open>STS/SAR PBN/B2D2 PER/C\<close>, and decoding that string gives
  \<open>sts = ["SAR"]\<close>, \<open>pbn = ["B2", "D2"]\<close> in this order and \<open>per = "C"\<close>: the data itself.
\<close>

theorem C4_field18_round_trip:
  "buildField18String
     \<lparr>sts = [''SAR''], pbn = [''B2'', ''D2''], per = ''C'', eurProtected = False, rfp = [],
      stayInfo = replicate 9 [], textFields = []\<rparr>
     = ''STS/SAR PBN/B2D2 PER/C''
   \<and> sts (parseField18String ''STS/SAR PBN/B2D2 PER/C'') = [''SAR'']
   \<and> pbn (parseField18String ''STS/SAR PBN/B2D2 PER/C'') = [''B2'', ''D2'']
   \<and> per (parseField18String ''STS/SAR PBN/B2D2 PER/C'') = ''C''
   \<and> parseField18String ''STS/SAR PBN/B2D2 PER/C''
       = \<lparr>sts = [''SAR''], pbn = [''B2'', ''D2''], per = ''C'', eurProtected = False, rfp = [],
          stayInfo = replicate 9 [], textFields = []\<rparr>"
  by code_simp

text \<open>
  Claim C5. The Field 19 data with endurance 0500, persons 002, VHF and ELBA radio and
  nothing else is encoded as the three tokens \<^verbatim>\<open>E\0500\<close>, \<^verbatim>\<open>P\002\<close> and \<^verbatim>\<open>R\VE\<close>, the
  radio letters in the order of the encoder, and decoding that string gives the same
  endurance, persons and radio flags: the data itself.
\<close>

theorem C5_field19_round_trip:
  "buildField19String
     \<lparr>endurance = ''0500'', persons = ''002'',
      radioUhf = False, radioVhf = True, radioElba = True,
      survivalPolar = False, survivalDesert = False, survivalMaritime = False,
      survivalJungle = False,
      jacketsLight = False, jacketsFluores = False, jacketsUhf = False, jacketsVhf = False,
      dinghiesEnabled = False, dinghiesNumber = [], dinghiesCapacity = [],
      dinghiesCover = False, dinghiesColour = [],
      aircraftColour = [], remarks = [], pilotInCommand = []\<rparr>
     = tok CHR ''E'' ''0500'' @ '' '' @ tok CHR ''P'' ''002'' @ '' '' @ tok CHR ''R'' ''VE''
   \<and> tok CHR ''R'' ''VE'' = [CHR ''R'', CHR 0x5C, CHR ''V'', CHR ''E'']
   \<and> str_includes (tok CHR ''E'' ''0500'' @ '' '' @ tok CHR ''P'' ''002'' @ '' '' @ tok CHR ''R'' ''VE'')
         (tok CHR ''E'' ''0500'')
   \<and> str_includes (tok CHR ''E'' ''0500'' @ '' '' @ tok CHR ''P'' ''002'' @ '' '' @ tok CHR ''R'' ''VE'')
         (tok CHR ''P'' ''002'')
   \<and> str_includes (tok CHR ''E'' ''0500'' @ '' '' @ tok CHR ''P'' ''002'' @ '' '' @ tok CHR ''R'' ''VE'')
         (tok CHR ''R'' ''VE'')
   \<and> parseField19String
         (tok CHR ''E'' ''0500'' @ '' '' @ tok CHR ''P'' ''002'' @ '' '' @ tok CHR ''R'' ''VE'')
       = Some \<lparr>endurance = ''0500'', persons = ''002'',
               radioUhf = False, radioVhf = True, radioElba = True,
               survivalPolar = False, survivalDesert = False, survivalMaritime = False,
               survivalJungle = False,
               jacketsLight = False, jacketsFluores = False, jacketsUhf = False,
               jacketsVhf = False,
               dinghiesEnabled = False, dinghiesNumber = [], dinghiesCapacity = [],
               dinghiesCover = False, dinghiesColour = [],
               aircraftColour = [], remarks = [], pilotInCommand = []\<rparr>"
  by code_simp

section \<open>Validation field errors\<close>

lemma in_range_digit: "in_range CHR ''0'' CHR ''9'' c \<longleftrightarrow> c \<in> set digits"
proof
  assume "in_range CHR ''0'' CHR ''9'' c"
  then have "(48::nat) \<le> of_char c" "of_char c \<le> (57::nat)" by (simp_all add: in_range_def)
  then have "(of_char c :: nat) = 48 \<or> (of_char c :: nat) = 49 \<or> (of_char c :: nat) = 50
      \<or> (of_char c :: nat) = 51 \<or> (of_char c :: nat) = 52 \<or> (of_char c :: nat) = 53
      \<or> (of_char c :: nat) = 54 \<or> (of_char c :: nat) = 55 \<or> (of_char c :: nat) = 56
      \<or> (of_char c :: nat) = 57" by arith
  then have "(of_char c :: nat) \<in> {48, 49, 50, 51, 52, 53, 54, 55, 56, 57}" by blast
  then have "(of_char c :: nat) \<in> of_char ` set digits" by (simp add: digits_def)
  then show "c \<in> set digits" by (auto simp del: set_simps)
next
  assume "c \<in> set digits"
  then show "in_range CHR ''0'' CHR ''9'' c" by (auto simp: digits_def in_range_def)
qed

lemma upper_cases: "ascii_upper c = c \<or> (c \<in> set lowers \<and> ascii_upper c \<in> set uppers)"
  by (simp add: ascii_upper_def lowers_def uppers_def)

lemma lower_cases: "ascii_lower c = c \<or> (c \<in> set uppers \<and> ascii_lower c \<in> set lowers)"
  by (simp add: ascii_lower_def lowers_def uppers_def)

lemma lowers_range: "c \<in> set lowers \<Longrightarrow> in_range CHR ''a'' CHR ''z'' c"
  by (auto simp: lowers_def in_range_def)

lemma uppers_range: "c \<in> set uppers \<Longrightarrow> in_range CHR ''A'' CHR ''Z'' c"
  by (auto simp: uppers_def in_range_def)

lemma letters_not_digits: "c \<in> set lowers \<or> c \<in> set uppers \<Longrightarrow> c \<notin> set digits"
  by (auto simp: uppers_def lowers_def digits_def)

lemma in_class_digit: "in_class ic [CDigit] c \<longleftrightarrow> c \<in> set digits"
  using upper_cases [of c] lower_cases [of c] letters_not_digits [of c]
    letters_not_digits [of "ascii_upper c"] letters_not_digits [of "ascii_lower c"]
  by (auto simp: in_class_def in_range_digit)

lemma in_class_word: "in_class ic [CWord] c \<longleftrightarrow> in_cset CWord c"
  using upper_cases [of c] lower_cases [of c] lowers_range [of c] uppers_range [of c]
  by (auto simp: in_class_def)


lemma one_char_Nil [simp]: "one_char P (p, [], caps) = []"
  by (simp add: one_char_def)

lemma one_char_Cons [simp]:
  "one_char P (p, c # cs, caps) = (if P c then [(Suc p, cs, caps)] else [])"
  by (simp add: one_char_def)

lemma rmatch_Seq_Nil: "rmatch ic r1 st = [] \<Longrightarrow> rmatch ic (Seq r1 r2) st = []"
  by simp

lemma rmatch_Plus_Nil: "rmatch ic r st = [] \<Longrightarrow> rmatch ic (Plus r) st = []"
  by (simp add: Plus_def)

lemma rmatch_Group_Nil: "rmatch ic r st = [] \<Longrightarrow> rmatch ic (Group k r) st = []"
  by simp

lemma rmatch_lit_sound:
  "st' \<in> set (rmatch ic (lit l) (p, s, caps)) \<Longrightarrow>
   \<exists>w rest. s = w @ rest \<and> map (canon ic) w = map (canon ic) l \<and> st' = (p + length w, rest, caps)"
proof (induction l arbitrary: p s)
  case Nil
  then show ?case by (simp add: lit_def)
next
  case (Cons a l)
  from Cons.prems obtain c cs where s: "s = c # cs" and c: "canon ic c = canon ic a"
    and m: "st' \<in> set (rmatch ic (lit l) (Suc p, cs, caps))"
    by (cases s) (auto simp: lit_def split: if_splits)
  from Cons.IH [OF m] obtain w rest where "cs = w @ rest"
    "map (canon ic) w = map (canon ic) l" "st' = (Suc p + length w, rest, caps)" by blast
  then have "s = (c # w) @ rest \<and> map (canon ic) (c # w) = map (canon ic) (a # l)
      \<and> st' = (p + length (c # w), rest, caps)" using s c by simp
  then show ?case by blast
qed

lemma lower_upper: "ascii_lower (ascii_upper c) = ascii_lower c"
  by (simp add: ascii_upper_def ascii_lower_def lowers_def uppers_def)

lemma fieldCode_alt_sound:
  assumes "rmatch True fieldCode_alt (p, s, caps) \<noteq> []"
  shows "leading_field_code s"
proof -
  let ?a = "seqs [Chr CHR ''F'', Plus (Set [CDigit]), Opt (Set [CRange CHR ''a'' CHR ''z''])]"
  let ?b = "Seq (lit ''FAddinfo'') (Plus (Set [CWord]))"
  from assms have "rmatch True ?a (p, s, caps) \<noteq> [] \<or> rmatch True ?b (p, s, caps) \<noteq> []"
    by (simp add: fieldCode_alt_def)
  then show ?thesis
  proof
    assume a: "rmatch True ?a (p, s, caps) \<noteq> []"
    then obtain c s' where s: "s = c # s'" and c: "canon True c = canon True CHR ''F''"
      by (cases s) (auto split: if_splits)
    from a s c have "rmatch True (Plus (Set [CDigit])) (Suc p, s', caps) \<noteq> []"
      by (auto split: if_splits)
    then have "rmatch True (Set [CDigit]) (Suc p, s', caps) \<noteq> []"
      using rmatch_Plus_Nil by blast
    then obtain d rest where s': "s' = d # rest" and d: "in_class True [CDigit] d"
      by (cases s') (auto split: if_splits)
    from c have "ascii_upper c = CHR ''F''"
      by (simp add: canon_def ascii_upper_def lowers_def uppers_def)
    with d show ?thesis by (simp add: leading_field_code_def s s' in_class_digit)
  next
    assume b: "rmatch True ?b (p, s, caps) \<noteq> []"
    then obtain st' where st': "st' \<in> set (rmatch True (lit ''FAddinfo'') (p, s, caps))"
      and w: "rmatch True (Plus (Set [CWord])) st' \<noteq> []" by auto
    from rmatch_lit_sound [OF st'] obtain w rest where sw: "s = w @ rest"
      and cw: "map (canon True) w = map (canon True) ''FAddinfo''"
      and e: "st' = (p + length w, rest, caps)" by blast
    from w e have "rmatch True (Set [CWord]) (p + length w, rest, caps) \<noteq> []"
      using rmatch_Plus_Nil by blast
    then obtain x rest' where r: "rest = x # rest'" and x: "in_class True [CWord] x"
      by (cases rest) (auto split: if_splits)
    have len: "length w = 8" using arg_cong [OF cw, of length] by simp
    have "map ascii_lower w = map (ascii_lower \<circ> ascii_upper) w" by (simp add: lower_upper)
    also have "\<dots> = map ascii_lower (map (canon True) w)" by (simp add: canon_def)
    also have "\<dots> = ''faddinfo''"
      unfolding cw by (simp add: canon_def ascii_upper_def ascii_lower_def lowers_def uppers_def)
    finally have lw: "map ascii_lower w = ''faddinfo''" .
    from x have "in_cset CWord x" by (simp only: in_class_word)
    with lw len show ?thesis by (simp add: leading_field_code_def sw r)
  qed
qed

lemma search_Bol_pos: "0 < p \<Longrightarrow> search ic (Seq Bol r) p s = None"
  by (induction s arbitrary: p) (simp_all add: match_at_def)

lemma search_Bol_0: "search ic (Seq Bol r) 0 s = match_at ic (Seq Bol r) 0 s"
  by (cases s) (simp_all add: search_Bol_pos split: option.splits)

lemma fieldCode_no_match:
  assumes "\<not> leading_field_code s"
  shows "search True fieldCode_re 0 s = None"
proof -
  have "rmatch True fieldCode_alt (0, s, []) = []"
    using assms fieldCode_alt_sound [of 0 s "[]"] by blast
  then have "rmatch True (Group 1 fieldCode_alt) (0, s, []) = []" by (rule rmatch_Group_Nil)
  then have "rmatch True fieldCode_re (0, s, []) = []" by (simp add: fieldCode_re_def)
  then have "match_at True fieldCode_re 0 s = None" by (simp add: match_at_def)
  then show ?thesis using search_Bol_0 [of True _ s] by (simp add: fieldCode_re_def)
qed

text \<open>
  Claim C7, as stated, at the empty error text: it has no leading field code, and no
  field error is filed for it, none under General either.
\<close>

theorem C7_counterexample:
  "\<not> leading_field_code [] \<and> fieldErrorEntry [] [] = []
   \<and> fieldErrorEntry [] [] \<noteq> [\<lparr>field = ''General'', message = []\<rparr>]"
  by (simp add: leading_field_code_def fieldErrorEntry_def)

text \<open>
  Claim C7, amended. The error text \<^verbatim>\<open>F7 Invalid Aircraft Identification\<close> becomes a field
  error with field \<^verbatim>\<open>F7\<close> and message \<^verbatim>\<open>Invalid Aircraft Identification\<close>. Every error
  text that is not empty and has no leading field code, such as \<^verbatim>\<open>Something went wrong\<close>,
  becomes a field error under \<^verbatim>\<open>General\<close> with the whole text as message.
\<close>

theorem C7_validation_field_errors:
  "fieldErrorEntry ''F7 Invalid Aircraft Identification'' []
     = [\<lparr>field = ''F7'', message = ''Invalid Aircraft Identification''\<rparr>]
   \<and> fieldErrorEntry ''Something went wrong'' []
     = [\<lparr>field = ''General'', message = ''Something went wrong''\<rparr>]
   \<and> (errorText \<noteq> [] \<and> \<not> leading_field_code errorText \<longrightarrow>
        fieldErrorEntry errorText errs = errs @ [\<lparr>field = ''General'', message = errorText\<rparr>])"
proof (intro conjI impI)
  show "fieldErrorEntry ''F7 Invalid Aircraft Identification'' []
     = [\<lparr>field = ''F7'', message = ''Invalid Aircraft Identification''\<rparr>]"
    by code_simp
  show "fieldErrorEntry ''Something went wrong'' []
     = [\<lparr>field = ''General'', message = ''Something went wrong''\<rparr>]"
    by code_simp
next
  assume "errorText \<noteq> [] \<and> \<not> leading_field_code errorText"
  then show "fieldErrorEntry errorText errs = errs @ [\<lparr>field = ''General'', message = errorText\<rparr>]"
    by (simp add: fieldErrorEntry_def fieldCode_no_match)
qed

text \<open>C7 at an error text without a field code, after an earlier field error.\<close>

theorem C7_witness:
  "''Something went wrong'' \<noteq> [] \<and> \<not> leading_field_code ''Something went wrong''
   \<and> fieldErrorEntry ''Something went wrong'' [\<lparr>field = ''F7'', message = ''x''\<rparr>]
       = [\<lparr>field = ''F7'', message = ''x''\<rparr>,
          \<lparr>field = ''General'', message = ''Something went wrong''\<rparr>]"
proof -
  have h: "''Something went wrong'' \<noteq> [] \<and> \<not> leading_field_code ''Something went wrong''"
    by (simp add: leading_field_code_def ascii_upper_def ascii_lower_def lowers_def uppers_def)
  show ?thesis
    using C7_validation_field_errors [of "''Something went wrong''"
        "[\<lparr>field = ''F7'', message = ''x''\<rparr>]"] h
    by simp
qed

section \<open>Login\<close>

text \<open>
  Claim C9, as stated, at a portal that answers the login request with status 500: the
  body has no error marker, the landing page would not redirect and holds the constructor
  call, so none of the three cases of the claim applies; the result is a failure.
\<close>

theorem C9_counterexample:
  "submitLogin portal_rejecting ''a=1'' ''tok1'' ''user'' ''pw'' ''1234''
     = Inr (LoginFailure ''Login request failed'')
   \<and> portal_rejecting (loginRequest ''a=1'' ''tok1'' ''user'' ''pw'' ''1234'')
     = Some \<lparr>rsp_status = 500, rsp_set_cookie = None, rsp_location = None, rsp_body = []\<rparr>
   \<and> \<not> hasErrorMarker []
   \<and> portal_rejecting (indexRequest ''a=1'' True)
     = Some \<lparr>rsp_status = 200, rsp_set_cookie = None, rsp_location = None,
              rsp_body = landing_page\<rparr>
   \<and> \<not> redirectsToLogin \<lparr>rsp_status = 200, rsp_set_cookie = None, rsp_location = None,
                           rsp_body = landing_page\<rparr>
   \<and> search False appController_re 0 landing_page \<noteq> None"
  by code_simp

text \<open>
  Claim C9, amended. When the requests that \<open>submitLogin\<close> sends are answered, it returns a
  failure in exactly four cases: the login response has a status outside 200 to 299, its
  body has an error marker, the request for the landing page is answered by status 302
  with a location that contains \<^verbatim>\<open>login.php\<close>, or the final page has no constructor call.
  Otherwise it returns success with the merged cookies and with the token and the user
  session read from the constructor call. Each failure has its own message.
\<close>

theorem C9_submit_login_results:
  assumes "fetch (loginRequest cookies0 token0 username password captcha) = Some loginResponse"
    and "c1 = mergeCookies cookies0 (extractCookies (rsp_set_cookie loginResponse))"
    and "rsp_ok loginResponse \<and> \<not> hasErrorMarker (rsp_body loginResponse)
         \<longrightarrow> fetch (indexRequest c1 True) = Some indexResponse"
    and "c2 = mergeCookies c1 (extractCookies (rsp_set_cookie indexResponse))"
    and "rsp_ok loginResponse \<and> \<not> hasErrorMarker (rsp_body loginResponse)
         \<and> \<not> redirectsToLogin indexResponse \<and> rsp_status indexResponse = 302
         \<longrightarrow> fetch (indexRequest c2 False) = Some redirectResponse"
    and "finalCookies = (if rsp_status indexResponse = 302
                         then mergeCookies c2 (extractCookies (rsp_set_cookie redirectResponse))
                         else c2)"
    and "finalPage = (if rsp_status indexResponse = 302 then rsp_body redirectResponse
                      else rsp_body indexResponse)"
  shows "(\<not> rsp_ok loginResponse \<or> hasErrorMarker (rsp_body loginResponse)
          \<or> redirectsToLogin indexResponse
          \<or> search False appController_re 0 finalPage = None
          \<longrightarrow> (\<exists>e. submitLogin fetch cookies0 token0 username password captcha
                      = Inr (LoginFailure e)))
     \<and> (\<not> (\<not> rsp_ok loginResponse \<or> hasErrorMarker (rsp_body loginResponse)
             \<or> redirectsToLogin indexResponse
             \<or> search False appController_re 0 finalPage = None)
          \<longrightarrow> (\<exists>mt. search False appController_re 0 finalPage = Some mt
                 \<and> submitLogin fetch cookies0 token0 username password captcha
                      = Inr (LoginSuccess finalCookies (grp mt 1) (grp mt 2))))
     \<and> (\<not> rsp_ok loginResponse
          \<longrightarrow> submitLogin fetch cookies0 token0 username password captcha
                = Inr (LoginFailure ''Login request failed''))
     \<and> (rsp_ok loginResponse \<and> hasErrorMarker (rsp_body loginResponse)
          \<longrightarrow> submitLogin fetch cookies0 token0 username password captcha
                = Inr (LoginFailure ''Invalid credentials or captcha''))
     \<and> (rsp_ok loginResponse \<and> \<not> hasErrorMarker (rsp_body loginResponse)
          \<and> redirectsToLogin indexResponse
          \<longrightarrow> submitLogin fetch cookies0 token0 username password captcha
                = Inr (LoginFailure ''Login failed - redirected back to login''))
     \<and> (rsp_ok loginResponse \<and> \<not> hasErrorMarker (rsp_body loginResponse)
          \<and> \<not> redirectsToLogin indexResponse
          \<and> search False appController_re 0 finalPage = None
          \<longrightarrow> submitLogin fetch cookies0 token0 username password captcha
                = Inr (LoginFailure ''Failed to extract session data after login''))"
proof -
  let ?r = "submitLogin fetch cookies0 token0 username password captcha"
  have a: "\<not> rsp_ok loginResponse \<Longrightarrow> ?r = Inr (LoginFailure ''Login request failed'')"
    using assms(1) by (simp add: submitLogin_def)
  have b: "rsp_ok loginResponse \<Longrightarrow> hasErrorMarker (rsp_body loginResponse) \<Longrightarrow>
           ?r = Inr (LoginFailure ''Invalid credentials or captcha'')"
    using assms(1) by (simp add: submitLogin_def Let_def)
  have c: "rsp_ok loginResponse \<Longrightarrow> \<not> hasErrorMarker (rsp_body loginResponse) \<Longrightarrow>
           redirectsToLogin indexResponse \<Longrightarrow>
           ?r = Inr (LoginFailure ''Login failed - redirected back to login'')"
    using assms(1,2,3) by (simp add: submitLogin_def Let_def)
  have d: "rsp_ok loginResponse \<Longrightarrow> \<not> hasErrorMarker (rsp_body loginResponse) \<Longrightarrow>
           \<not> redirectsToLogin indexResponse \<Longrightarrow> ?r = Inr (extractSession finalCookies finalPage)"
    using assms by (simp add: submitLogin_def Let_def)
  have e: "search False appController_re 0 finalPage = None \<Longrightarrow>
           extractSession finalCookies finalPage
             = LoginFailure ''Failed to extract session data after login''"
    by (simp add: extractSession_def)
  have f: "\<And>mt. search False appController_re 0 finalPage = Some mt \<Longrightarrow>
           extractSession finalCookies finalPage = LoginSuccess finalCookies (grp mt 1) (grp mt 2)"
    by (simp add: extractSession_def)
  show ?thesis
  proof (intro conjI impI)
    assume "\<not> rsp_ok loginResponse \<or> hasErrorMarker (rsp_body loginResponse)
            \<or> redirectsToLogin indexResponse
            \<or> search False appController_re 0 finalPage = None"
    then show "\<exists>e. ?r = Inr (LoginFailure e)"
      using a b c d e by metis
  next
    assume n: "\<not> (\<not> rsp_ok loginResponse \<or> hasErrorMarker (rsp_body loginResponse)
                  \<or> redirectsToLogin indexResponse
                  \<or> search False appController_re 0 finalPage = None)"
    then obtain mt where mt: "search False appController_re 0 finalPage = Some mt" by auto
    with n d f show "\<exists>mt. search False appController_re 0 finalPage = Some mt
                        \<and> ?r = Inr (LoginSuccess finalCookies (grp mt 1) (grp mt 2))"
      by auto
  next
    assume "\<not> rsp_ok loginResponse"
    then show "?r = Inr (LoginFailure ''Login request failed'')" by (rule a)
  next
    assume "rsp_ok loginResponse \<and> hasErrorMarker (rsp_body loginResponse)"
    then show "?r = Inr (LoginFailure ''Invalid credentials or captcha'')" using b by blast
  next
    assume "rsp_ok loginResponse \<and> \<not> hasErrorMarker (rsp_body loginResponse)
            \<and> redirectsToLogin indexResponse"
    then show "?r = Inr (LoginFailure ''Login failed - redirected back to login'')"
      using c by blast
  next
    assume "rsp_ok loginResponse \<and> \<not> hasErrorMarker (rsp_body loginResponse)
            \<and> \<not> redirectsToLogin indexResponse
            \<and> search False appController_re 0 finalPage = None"
    then show "?r = Inr (LoginFailure ''Failed to extract session data after login'')"
      using d e by simp
  qed
qed

text \<open>C9 at the accepting portal: all hypotheses hold and the login succeeds.\<close>

theorem C9_witness:
  "submitLogin portal_accepting ''a=1'' ''tok1'' ''user'' ''pw'' ''1234''
     = Inr (LoginSuccess ''a=1; sid=abc; lang=en'' ''tok2'' ''sess9'')"
proof -
  let ?lr = "\<lparr>rsp_status = 200, rsp_set_cookie = Some ''sid=abc; Path=/'',
                 rsp_location = None, rsp_body = ''<LoginOK>1</LoginOK>''\<rparr>"
  let ?ir = "\<lparr>rsp_status = 302, rsp_set_cookie = None,
                 rsp_location = Some ''/ixo/index.php?start'', rsp_body = []\<rparr>"
  let ?rr = "\<lparr>rsp_status = 200, rsp_set_cookie = Some ''lang=en'', rsp_location = None,
                 rsp_body = landing_page\<rparr>"
  have h1: "portal_accepting (loginRequest ''a=1'' ''tok1'' ''user'' ''pw'' ''1234'') = Some ?lr"
    by code_simp
  have h2: "''a=1; sid=abc'' = mergeCookies ''a=1'' (extractCookies (rsp_set_cookie ?lr))"
    by code_simp
  have h3: "rsp_ok ?lr \<and> \<not> hasErrorMarker (rsp_body ?lr)
            \<longrightarrow> portal_accepting (indexRequest ''a=1; sid=abc'' True) = Some ?ir"
    by code_simp
  have h4: "''a=1; sid=abc'' = mergeCookies ''a=1; sid=abc'' (extractCookies (rsp_set_cookie ?ir))"
    by code_simp
  have h5: "rsp_ok ?lr \<and> \<not> hasErrorMarker (rsp_body ?lr) \<and> \<not> redirectsToLogin ?ir
            \<and> rsp_status ?ir = 302
            \<longrightarrow> portal_accepting (indexRequest ''a=1; sid=abc'' False) = Some ?rr"
    by code_simp
  have h6: "''a=1; sid=abc; lang=en'' =
      (if rsp_status ?ir = 302
       then mergeCookies ''a=1; sid=abc'' (extractCookies (rsp_set_cookie ?rr))
       else ''a=1; sid=abc'')"
    by code_simp
  have h7: "landing_page = (if rsp_status ?ir = 302 then rsp_body ?rr else rsp_body ?ir)"
    by simp
  have n: "\<not> (\<not> rsp_ok ?lr \<or> hasErrorMarker (rsp_body ?lr) \<or> redirectsToLogin ?ir
              \<or> search False appController_re 0 landing_page = None)"
    by code_simp
  have g: "\<And>mt. search False appController_re 0 landing_page = Some mt \<Longrightarrow>
             grp mt 1 = ''tok2'' \<and> grp mt 2 = ''sess9''"
  proof -
    fix mt
    assume a: "search False appController_re 0 landing_page = Some mt"
    have "map_option (\<lambda>mt. (grp mt 1, grp mt 2)) (search False appController_re 0 landing_page)
            = Some (''tok2'', ''sess9'')"
      by code_simp
    with a show "grp mt 1 = ''tok2'' \<and> grp mt 2 = ''sess9''" by simp
  qed
  from C9_submit_login_results [OF h1 h2 h3 h4 h5 h6 h7] n
  obtain mt where "search False appController_re 0 landing_page = Some mt"
    and "submitLogin portal_accepting ''a=1'' ''tok1'' ''user'' ''pw'' ''1234''
           = Inr (LoginSuccess ''a=1; sid=abc; lang=en'' (grp mt 1) (grp mt 2))"
    by blast
  with g show ?thesis by simp
qed

section \<open>Field 19 decoding\<close>

lemma repeat_one_char_hd:
  "length s \<le> n \<Longrightarrow>
   \<exists>tl. repeat_matcher (one_char P) True n (p, s, caps)
         = (p + length (takeWhile P s), dropWhile P s, caps) # tl"
proof (induction s arbitrary: n p)
  case Nil
  then show ?case by (cases n) (simp_all add: Let_def)
next
  case (Cons c cs)
  then obtain m where n: "n = Suc m" and le: "length cs \<le> m" by (cases n) auto
  show ?case
  proof (cases "P c")
    case True
    from Cons.IH [OF le, of "Suc p"] obtain tl where
      "repeat_matcher (one_char P) True m (Suc p, cs, caps)
         = (Suc p + length (takeWhile P cs), dropWhile P cs, caps) # tl" by blast
    with True show ?thesis by (simp add: n Let_def)
  next
    case False
    then show ?thesis by (simp add: n Let_def)
  qed
qed

lemma in_class_space: "(\<not> in_class False [CChar CHR '' ''] x) = (x \<noteq> CHR '' '')"
  by (simp add: in_class_def)

lemma rmatch_not_space: "rmatch False (NSet [CChar CHR '' '']) = one_char (\<lambda>x. x \<noteq> CHR '' '')"
  by (rule ext) (simp add: in_class_def)

lemma match_at_field19_token:
  assumes "is_upper c"
  shows "match_at False field19_re p (c # backslash # rest) = Some (token_match p c rest)"
proof -
  let ?P = "\<lambda>x. x \<noteq> CHR '' ''"
  let ?caps = "[(Suc 0, [c])]"
  obtain tl where r: "repeat_matcher (one_char ?P) True (length rest) (Suc (Suc p), rest, ?caps)
      = (Suc (Suc p) + length (takeWhile ?P rest), dropWhile ?P rest, ?caps) # tl"
    using repeat_one_char_hd [of rest "length rest" ?P "Suc (Suc p)" ?caps] by auto
  have t: "take (length (takeWhile ?P rest)) rest = takeWhile ?P rest"
    by (metis append_eq_conv_conj takeWhile_dropWhile_id)
  have "rmatch False field19_re (p, c # backslash # rest, [])
          = map (\<lambda>st'. (fst st', fst (snd st'),
                   AList.update 2 (take (fst st' - Suc (Suc p)) rest) (snd (snd st'))))
                (repeat_matcher (one_char ?P) True (length rest) (Suc (Suc p), rest, ?caps))"
    using assms
    by (simp add: field19_re_def in_class_def is_upper_def canon_def rmatch_not_space)
  then show ?thesis
    by (simp add: r match_at_def token_match_def value_run_def t tok_def)
qed

lemma match_at_field19_none:
  "\<not> (\<exists>c rest. s = c # backslash # rest \<and> is_upper c) \<Longrightarrow> match_at False field19_re p s = None"
proof (cases s)
  case Nil
  then show ?thesis by (simp add: match_at_def field19_re_def)
next
  case (Cons c s')
  assume a: "\<not> (\<exists>c rest. s = c # backslash # rest \<and> is_upper c)"
  show ?thesis
  proof (cases "is_upper c")
    case False
    then show ?thesis
      by (simp add: Cons match_at_def field19_re_def in_class_def is_upper_def)
  next
    case True
    with a Cons have "s' = [] \<or> hd s' \<noteq> backslash" by (cases s') auto
    then show ?thesis
      by (cases s') (auto simp: Cons match_at_def field19_re_def in_class_def canon_def)
  qed
qed


lemma match_at_field19_Nil [simp]: "match_at False field19_re p [] = None"
  by (simp add: match_at_field19_none)

lemma search_field19_token:
  "is_upper c \<Longrightarrow> search False field19_re p (c # backslash # rest) = Some (token_match p c rest)"
  by (simp add: match_at_field19_token)

lemma search_field19_skip:
  "\<not> (is_upper c \<and> (\<exists>rest. s = backslash # rest)) \<Longrightarrow>
   search False field19_re p (c # s) = search False field19_re (Suc p) s"
  using match_at_field19_none [of "c # s" p] by auto

lemma search_field19_Some:
  "search False field19_re p s = Some mt \<Longrightarrow>
   \<exists>pre c rest. s = pre @ c # backslash # rest \<and> is_upper c
                \<and> mt = token_match (p + length pre) c rest"
proof (induction s arbitrary: p)
  case Nil
  then show ?case by simp
next
  case (Cons a s)
  show ?case
  proof (cases "is_upper a \<and> (\<exists>rest. s = backslash # rest)")
    case True
    then obtain rest where s: "s = backslash # rest" and a: "is_upper a" by blast
    from Cons.prems have "mt = token_match p a rest"
      by (simp only: s search_field19_token [OF a] option.inject)
    then have "a # s = [] @ a # backslash # rest \<and> is_upper a
        \<and> mt = token_match (p + length ([]::string)) a rest" using s a by simp
    then show ?thesis by blast
  next
    case False
    with Cons.prems have "search False field19_re (Suc p) s = Some mt"
      by (simp only: search_field19_skip [OF False])
    from Cons.IH [OF this] obtain pre c rest where "s = pre @ c # backslash # rest"
      "is_upper c" "mt = token_match (Suc p + length pre) c rest" by blast
    then have "a # s = (a # pre) @ c # backslash # rest \<and> is_upper c
        \<and> mt = token_match (p + length (a # pre)) c rest" by simp
    then show ?thesis by blast
  qed
qed

lemma search_field19_bounds:
  assumes "search False field19_re p s = Some mt"
  shows "p \<le> m_index mt \<and> m_index mt < m_end mt \<and> m_end mt \<le> p + length s"
proof -
  from search_field19_Some [OF assms] obtain pre c rest where s: "s = pre @ c # backslash # rest"
    and mt: "mt = token_match (p + length pre) c rest" by blast
  have "length (value_run rest) \<le> length rest"
    by (simp add: value_run_def length_takeWhile_le)
  then show ?thesis by (simp add: mt s token_match_def)
qed

lemma exec_loop_fold:
  "(\<And>p s mt. search ic r p s = Some mt \<Longrightarrow>
       p \<le> m_index mt \<and> m_index mt < m_end mt \<and> m_end mt \<le> p + length s) \<Longrightarrow>
   exec_loop f ic r p s d = Some (fold f (match_all ic r p s) d)"
proof (induction ic r p s arbitrary: d rule: match_all.induct)
  case (1 ic r p s)
  note b = "1.prems"
  show ?case
  proof (cases "search ic r p s")
    case None
    then show ?thesis by (subst exec_loop.simps, subst match_all.simps) simp
  next
    case (Some mt)
    from b [OF Some] have bb: "p \<le> m_index mt" "m_index mt < m_end mt" "m_end mt \<le> p + length s"
      by simp_all
    let ?q = "if m_end mt = m_index mt then Suc (m_end mt) else m_end mt"
    have q: "?q = m_end mt" using bb by simp
    have c: "p < ?q \<and> ?q - p \<le> length s" using bb by auto
    have ih: "exec_loop f ic r (m_end mt) (drop (m_end mt - p) s) (f mt d)
          = Some (fold f (match_all ic r (m_end mt) (drop (m_end mt - p) s)) (f mt d))"
      using "1.IH" [OF Some refl c b, of "f mt d"] by (simp only: q)
    have l: "exec_loop f ic r p s d
          = exec_loop f ic r (m_end mt) (drop (m_end mt - p) s) (f mt d)"
      by (subst exec_loop.simps) (simp add: Some)
    have m: "match_all ic r p s = mt # match_all ic r (m_end mt) (drop (m_end mt - p) s)"
      using c by (subst match_all.simps) (simp add: Some q Let_def)
    show ?thesis by (simp only: l ih m fold_simps comp_apply)
  qed
qed

lemma parseField19String_fold:
  "parseField19String str
     = Some (fold (field19_token str) (match_all False field19_re 0 str) defaultField19Data)"
proof (cases "str = []")
  case True
  then show ?thesis by (subst match_all.simps) (simp add: parseField19String_def)
next
  case False
  then show ?thesis
    using exec_loop_fold [of False field19_re "field19_token str" 0 str defaultField19Data]
      search_field19_bounds
    by (simp add: parseField19String_def)
qed

lemma match_all_field19_Nil [simp]: "match_all False field19_re p [] = []"
  by (subst match_all.simps) simp

lemma match_all_field19_token:
  assumes "is_upper c"
  shows "match_all False field19_re p (c # backslash # rest)
     = token_match p c rest
       # match_all False field19_re (p + 2 + length (value_run rest))
           (dropWhile (\<lambda>x. x \<noteq> CHR '' '') rest)"
proof -
  have "length (value_run rest) \<le> length rest"
    by (simp add: value_run_def length_takeWhile_le)
  moreover have "drop (length (value_run rest)) rest = dropWhile (\<lambda>x. x \<noteq> CHR '' '') rest"
    unfolding value_run_def by (metis append_eq_conv_conj takeWhile_dropWhile_id)
  ultimately show ?thesis
    by (subst match_all.simps)
       (simp add: search_field19_token [OF assms] token_match_def Let_def del: search.simps)
qed

lemma match_all_field19_skip:
  assumes "\<not> (is_upper c \<and> (\<exists>rest. s = backslash # rest))"
  shows "match_all False field19_re p (c # s) = match_all False field19_re (Suc p) s"
proof (cases "search False field19_re (Suc p) s")
  case None
  then show ?thesis
    by (subst match_all.simps, subst (2) match_all.simps)
       (simp add: search_field19_skip [OF assms] del: search.simps)
next
  case (Some mt)
  from search_field19_bounds [OF Some]
  have bb: "Suc p \<le> m_index mt" "m_index mt < m_end mt" "m_end mt \<le> Suc p + length s"
    by simp_all
  then have d: "drop (m_end mt - p) (c # s) = drop (m_end mt - Suc p) s"
    by (metis Suc_diff_Suc Suc_le_lessD drop_Suc_Cons less_trans_Suc order_less_imp_le
        less_le_trans)
  show ?thesis
    using bb d
    by (subst match_all.simps, subst (2) match_all.simps)
       (auto simp add: search_field19_skip [OF assms] Some Let_def simp del: search.simps)
qed


lemma value_run_split: "rest = value_run rest @ dropWhile (\<lambda>x. x \<noteq> CHR '' '') rest"
  by (simp add: value_run_def)

lemma token_occurs:
  "mt \<in> set (match_all False field19_re p s) \<Longrightarrow>
   \<exists>pre c rest. s = pre @ c # backslash # rest \<and> is_upper c
                \<and> mt = token_match (p + length pre) c rest"
proof (induction "length s" arbitrary: s p rule: less_induct)
  case less
  show ?case
  proof (cases s)
    case Nil
    with less.prems show ?thesis by simp
  next
    case (Cons c s')
    show ?thesis
    proof (cases "is_upper c \<and> (\<exists>rest. s' = backslash # rest)")
      case True
      then obtain rest where s': "s' = backslash # rest" and c: "is_upper c" by blast
      let ?d = "dropWhile (\<lambda>x. x \<noteq> CHR '' '') rest"
      let ?p' = "p + 2 + length (value_run rest)"
      from less.prems have "mt = token_match p c rest \<or> mt \<in> set (match_all False field19_re ?p' ?d)"
        by (simp add: Cons s' match_all_field19_token [OF c])
      then show ?thesis
      proof
        assume "mt = token_match p c rest"
        then have "s = [] @ c # backslash # rest \<and> is_upper c
            \<and> mt = token_match (p + length ([]::string)) c rest" using Cons s' c by simp
        then show ?thesis by blast
      next
        assume m: "mt \<in> set (match_all False field19_re ?p' ?d)"
        have "length ?d \<le> length rest" by (rule length_dropWhile_le)
        then have "length ?d < length s" using Cons s' by simp
        from less.hyps [OF this m] obtain pre c' rest' where d: "?d = pre @ c' # backslash # rest'"
          and c': "is_upper c'" and mt: "mt = token_match (?p' + length pre) c' rest'" by blast
        have "s = (c # backslash # value_run rest @ pre) @ c' # backslash # rest'"
          using Cons s' d value_run_split [of rest] by simp
        moreover have "mt = token_match (p + length (c # backslash # value_run rest @ pre)) c' rest'"
          using mt by (simp add: add.assoc)
        ultimately show ?thesis using c' by blast
      qed
    next
      case False
      from less.prems have m: "mt \<in> set (match_all False field19_re (Suc p) s')"
        by (simp add: Cons match_all_field19_skip [OF False])
      have "length s' < length s" using Cons by simp
      from less.hyps [OF this m] obtain pre c' rest' where "s' = pre @ c' # backslash # rest'"
        "is_upper c'" "mt = token_match (Suc p + length pre) c' rest'" by blast
      then have "s = (c # pre) @ c' # backslash # rest' \<and> is_upper c'
          \<and> mt = token_match (p + length (c # pre)) c' rest'" using Cons by simp
      then show ?thesis by blast
    qed
  qed
qed

lemma index_of_first:
  "starts_with (drop i s) pat \<Longrightarrow> \<forall>j<i. \<not> starts_with (drop j s) pat \<Longrightarrow> i \<le> length s \<Longrightarrow>
   index_of s pat = Some i"
proof (induction s arbitrary: i)
  case Nil
  then show ?case by (cases pat) simp_all
next
  case (Cons c cs)
  show ?case
  proof (cases i)
    case 0
    with Cons.prems show ?thesis by simp
  next
    case (Suc k)
    from Cons.prems Suc have n: "\<not> starts_with (c # cs) pat" by auto
    have a: "starts_with (drop k cs) pat" using Cons.prems Suc by simp
    have b: "\<forall>j<k. \<not> starts_with (drop j cs) pat"
    proof (intro allI impI)
      fix j assume "j < k"
      then have "Suc j < i" using Suc by simp
      with Cons.prems(2) have "\<not> starts_with (drop (Suc j) (c # cs)) pat" by blast
      then show "\<not> starts_with (drop j cs) pat" by simp
    qed
    have "k \<le> length cs" using Cons.prems Suc by simp
    from Cons.IH [OF a b this] n show ?thesis by (simp add: Suc)
  qed
qed

lemma field19_switch_C:
  "field19_switch str ''C'' v data
     = (if isPilotToken str v then data\<lparr>pilotInCommand := v\<rparr>
        else data\<lparr>dinghiesCover := True\<rparr>)"
  by (simp add: field19_switch_def)

text \<open>
  Claim C6, as stated, at the input \<^verbatim>\<open>C\SMITH\<close>: the string has no \<^verbatim>\<open>D\\<close> token, so the
  \<^verbatim>\<open>C\\<close> token is not after one and the claim has it read as the dinghy cover; the
  decoder reads it as the pilot in command and leaves the cover unset.
\<close>

theorem C6_counterexample:
  "index_of (tok CHR ''C'' ''SMITH'') (tok CHR ''D'' []) = None
   \<and> match_all False field19_re 0 (tok CHR ''C'' ''SMITH'') = [token_match 0 CHR ''C'' ''SMITH'']
   \<and> parseField19String (tok CHR ''C'' ''SMITH'')
       = Some (defaultField19Data\<lparr>pilotInCommand := ''SMITH''\<rparr>)
   \<and> dinghiesCover (defaultField19Data\<lparr>pilotInCommand := ''SMITH''\<rparr>) = False"
  by code_simp

text \<open>
  Claim C6, amended. The decoder runs over the tokens of the input in order. A \<^verbatim>\<open>C\value\<close>
  token whose text does not occur earlier in the input is read as the pilot in command
  when the input has no \<^verbatim>\<open>D\\<close> at all or when the token starts after the first \<^verbatim>\<open>D\\<close>,
  and as the dinghy cover otherwise.
\<close>

theorem C6_pilot_or_cover:
  assumes "mt \<in> set (match_all False field19_re 0 str)"
    and "grp mt 1 = ''C''"
    and "\<forall>i<m_index mt. \<not> starts_with (drop i str) (tok CHR ''C'' (grp mt 2))"
  shows "parseField19String str
           = Some (fold (field19_token str) (match_all False field19_re 0 str) defaultField19Data)
     \<and> field19_token str mt data
         = (if (case index_of str (tok CHR ''D'' []) of None \<Rightarrow> True | Some d \<Rightarrow> d < m_index mt)
            then data\<lparr>pilotInCommand := grp mt 2\<rparr>
            else data\<lparr>dinghiesCover := True\<rparr>)"
proof -
  from token_occurs [OF assms(1)] obtain pre c rest where s: "str = pre @ c # backslash # rest"
    and mt: "mt = token_match (length pre) c rest" by auto
  from assms(2) mt have c: "c = CHR ''C''" by (simp add: grp_def group_def token_match_def)
  have g2: "grp mt 2 = value_run rest" by (simp add: mt grp_def group_def token_match_def)
  have i: "m_index mt = length pre" by (simp add: mt token_match_def)
  have "drop (m_index mt) str = tok CHR ''C'' (grp mt 2) @ dropWhile (\<lambda>x. x \<noteq> CHR '' '') rest"
    using value_run_split [of rest] by (simp add: i s c g2 tok_def)
  then have "starts_with (drop (m_index mt) str) (tok CHR ''C'' (grp mt 2))"
    by (simp only: starts_with_iff) blast
  moreover have "m_index mt \<le> length str" by (simp add: i s)
  ultimately have "index_of str (tok CHR ''C'' (grp mt 2)) = Some (m_index mt)"
    using assms(3) by (intro index_of_first)
  then have p: "isPilotToken str (grp mt 2)
      = (case index_of str (tok CHR ''D'' []) of None \<Rightarrow> True | Some d \<Rightarrow> d < m_index mt)"
    by (simp add: isPilotToken_def index_of_int_def split: option.splits)
  have "field19_token str mt data
         = (if isPilotToken str (grp mt 2) then data\<lparr>pilotInCommand := grp mt 2\<rparr>
            else data\<lparr>dinghiesCover := True\<rparr>)"
    by (simp only: field19_token_def assms(2) field19_switch_C)
  then have "field19_token str mt data
         = (if (case index_of str (tok CHR ''D'' []) of None \<Rightarrow> True | Some d \<Rightarrow> d < m_index mt)
            then data\<lparr>pilotInCommand := grp mt 2\<rparr>
            else data\<lparr>dinghiesCover := True\<rparr>)"
    by (simp only: p)
  then show ?thesis using parseField19String_fold [of str] by (intro conjI)
qed

text \<open>C6 at the pilot token of the example input.\<close>

theorem C6_witness:
  "example19_token \<in> set (match_all False field19_re 0 example19)
   \<and> grp example19_token 1 = ''C''
   \<and> index_of example19 (tok CHR ''C'' (grp example19_token 2)) = Some (m_index example19_token)
   \<and> field19_token example19 example19_token defaultField19Data
       = defaultField19Data\<lparr>pilotInCommand := ''SMITH''\<rparr>"
proof -
  have h1: "example19_token \<in> set (match_all False field19_re 0 example19)" by code_simp
  have h2: "grp example19_token 1 = ''C''" by code_simp
  have i: "m_index example19_token = 4" by code_simp
  have h3: "\<forall>i<m_index example19_token.
              \<not> starts_with (drop i example19) (tok CHR ''C'' (grp example19_token 2))"
  proof (intro allI impI)
    fix i
    assume "i < m_index example19_token"
    then have "i = 0 \<or> i = 1 \<or> i = 2 \<or> i = 3" using i by arith
    then show "\<not> starts_with (drop i example19) (tok CHR ''C'' (grp example19_token 2))"
    proof (elim disjE)
      assume "i = 0"
      show ?thesis unfolding \<open>i = 0\<close> by code_simp
    next
      assume "i = 1"
      show ?thesis unfolding \<open>i = 1\<close> by code_simp
    next
      assume "i = 2"
      show ?thesis unfolding \<open>i = 2\<close> by code_simp
    next
      assume "i = 3"
      show ?thesis unfolding \<open>i = 3\<close> by code_simp
    qed
  qed
  have d: "index_of example19 (tok CHR ''D'' []) = Some 0" by code_simp
  have g: "grp example19_token 2 = ''SMITH''" by code_simp
  have "field19_token example19 example19_token defaultField19Data
         = (if (case index_of example19 (tok CHR ''D'' []) of None \<Rightarrow> True
                | Some d \<Rightarrow> d < m_index example19_token)
            then defaultField19Data\<lparr>pilotInCommand := grp example19_token 2\<rparr>
            else defaultField19Data\<lparr>dinghiesCover := True\<rparr>)"
    using C6_pilot_or_cover [OF h1 h2 h3, of defaultField19Data] by (rule conjunct2)
  then have "field19_token example19 example19_token defaultField19Data
         = defaultField19Data\<lparr>pilotInCommand := ''SMITH''\<rparr>"
    by (simp only: d i g option.case) simp
  moreover have "index_of example19 (tok CHR ''C'' (grp example19_token 2))
      = Some (m_index example19_token)" by code_simp
  ultimately show ?thesis using h1 h2 by (intro conjI)
qed

section \<open>The dinghy block\<close>

lemma field19Parts_shape:
  "dinghiesEnabled data \<Longrightarrow> dinghiesNumber data \<noteq> [] \<Longrightarrow>
   field19Parts data
     = map codeValue (beforeDinghy data @ [(CHR ''D'', dinghyValue data)] @ afterDinghy data)"
  by (simp add: field19Parts_def beforeDinghy_def afterDinghy_def dinghyValue_def dinghyPart_def
      codeValue_def tok_def Let_def)

lemma join_append_Cons:
  "join sep (xs @ y # ys) = concat (map (\<lambda>p. p @ sep) xs) @ join sep (y # ys)"
proof (induction xs)
  case Nil
  show ?case by simp
next
  case (Cons x xs)
  then show ?case by (cases xs) simp_all
qed

lemma dropWhile_append_stop:
  "\<not> P x \<Longrightarrow> dropWhile P (v @ x # r) = dropWhile P v @ x # r"
  by (induction v) simp_all

lemma takeWhile_append_stop:
  "\<not> P x \<Longrightarrow> takeWhile P (v @ x # r) = takeWhile P v"
  by (induction v) simp_all

lemma value_run_append_space: "value_run (v @ CHR '' '' # r) = value_run v"
  by (simp add: value_run_def takeWhile_append_stop)

lemma not_upper_space: "\<not> is_upper CHR '' ''"
  by (simp add: is_upper_def in_range_def)

lemma match_all_free_none:
  "backslash \<notin> set u \<Longrightarrow> match_all False field19_re p u = []"
proof (induction u arbitrary: p)
  case Nil
  show ?case by simp
next
  case (Cons a u)
  then have "\<not> (is_upper a \<and> (\<exists>rest. u = backslash # rest))" by auto
  from match_all_field19_skip [OF this] Cons show ?case by simp
qed

lemma match_all_skip_free:
  "backslash \<notin> set u \<Longrightarrow>
   match_all False field19_re p (u @ CHR '' '' # s) = match_all False field19_re (p + length u + 1) s"
proof (induction u arbitrary: p)
  case Nil
  have "\<not> (is_upper CHR '' '' \<and> (\<exists>rest. s = backslash # rest))" by (simp add: not_upper_space)
  from match_all_field19_skip [OF this] show ?case by simp
next
  case (Cons a u)
  have "backslash \<noteq> CHR '' ''" by (simp add: backslash_def)
  with Cons.prems have "\<not> (is_upper a \<and> (\<exists>rest. u @ CHR '' '' # s = backslash # rest))"
    by (cases u) auto
  from match_all_field19_skip [OF this] Cons show ?case by simp
qed

lemma token_pair_token_match [simp]: "token_pair (token_match p c rest) = ([c], value_run rest)"
  by (simp add: token_pair_def token_match_def grp_def group_def)

lemma set_dropWhile_subset: "x \<notin> set v \<Longrightarrow> x \<notin> set (dropWhile P v)"
  using set_dropWhileD by fastforce

lemma tokens_of_join:
  "\<forall>e\<in>set cvs. is_upper (fst e) \<and> backslash \<notin> set (snd e) \<Longrightarrow>
   map token_pair (match_all False field19_re p (join '' '' (map codeValue cvs)))
     = map (\<lambda>e. ([fst e], value_run (snd e))) cvs"
proof (induction cvs arbitrary: p)
  case Nil
  show ?case by simp
next
  case (Cons e cvs)
  obtain c v where e: "e = (c, v)" by (cases e)
  from Cons.prems e have c: "is_upper c" and v: "backslash \<notin> set v" by simp_all
  let ?ne = "\<lambda>x. x \<noteq> CHR '' ''"
  show ?case
  proof (cases cvs)
    case Nil
    have "match_all False field19_re (p + 2 + length (value_run v)) (dropWhile ?ne v) = []"
      by (rule match_all_free_none) (rule set_dropWhile_subset [OF v])
    then show ?thesis
      by (simp add: Nil e codeValue_def tok_def match_all_field19_token [OF c])
  next
    case (Cons e' cvs')
    let ?J = "join '' '' (map codeValue cvs)"
    have j: "join '' '' (map codeValue (e # cvs)) = c # backslash # (v @ CHR '' '' # ?J)"
      by (simp add: Cons e codeValue_def tok_def)
    have d: "dropWhile ?ne (v @ CHR '' '' # ?J) = dropWhile ?ne v @ CHR '' '' # ?J"
      by (rule dropWhile_append_stop) simp
    have "match_all False field19_re p (join '' '' (map codeValue (e # cvs)))
        = token_match p c (v @ CHR '' '' # ?J)
          # match_all False field19_re
              (p + 2 + length (value_run (v @ CHR '' '' # ?J)) + length (dropWhile ?ne v) + 1) ?J"
      unfolding j
      by (simp only: match_all_field19_token [OF c] d
            match_all_skip_free [OF set_dropWhile_subset [OF v]])
    then show ?thesis
      using Cons.IH Cons.prems by (simp add: e value_run_append_space)
  qed
qed

lemma fold_token_pairs:
  "fold (field19_token str) ms d = fold (switch_pair str) (map token_pair ms) d"
  by (induction ms arbitrary: d) (simp_all add: field19_token_def switch_pair_def token_pair_def)

lemma switch_keeps_capacity_colour:
  "dinghiesCapacity (field19_switch str code v d) = dinghiesCapacity d
   \<and> dinghiesColour (field19_switch str code v d) = dinghiesColour d"
  by (simp add: field19_switch_def)

lemma switch_keeps_number:
  "code \<noteq> ''D'' \<Longrightarrow>
   dinghiesNumber (field19_switch str code v d) = dinghiesNumber d
   \<and> dinghiesEnabled (field19_switch str code v d) = dinghiesEnabled d"
  by (simp add: field19_switch_def)

lemma switch_D:
  "dinghiesNumber (field19_switch str ''D'' v d) = v \<and> dinghiesEnabled (field19_switch str ''D'' v d)"
  by (simp add: field19_switch_def)

lemma switch_keeps_cover:
  "code = ''C'' \<longrightarrow> isPilotToken str v \<Longrightarrow>
   dinghiesCover (field19_switch str code v d) = dinghiesCover d"
  by (simp add: field19_switch_def)

lemma fold_keeps_capacity_colour:
  "dinghiesCapacity (fold (switch_pair str) ts d) = dinghiesCapacity d
   \<and> dinghiesColour (fold (switch_pair str) ts d) = dinghiesColour d"
  by (induction ts arbitrary: d) (simp_all add: switch_pair_def switch_keeps_capacity_colour)

lemma fold_keeps_number:
  "\<forall>e\<in>set ts. fst e \<noteq> ''D'' \<Longrightarrow>
   dinghiesNumber (fold (switch_pair str) ts d) = dinghiesNumber d
   \<and> dinghiesEnabled (fold (switch_pair str) ts d) = dinghiesEnabled d"
  by (induction ts arbitrary: d) (simp_all add: switch_pair_def switch_keeps_number)

lemma fold_keeps_cover:
  "\<forall>e\<in>set ts. fst e = ''C'' \<longrightarrow> isPilotToken str (snd e) \<Longrightarrow>
   dinghiesCover (fold (switch_pair str) ts d) = dinghiesCover d"
  by (induction ts arbitrary: d) (simp_all add: switch_pair_def switch_keeps_cover)

lemma has_pair_second: "has_pair a b s \<Longrightarrow> b \<in> set (tl s)"
  by (induction a b s rule: has_pair.induct) auto

lemma has_pair_append:
  "has_pair a b (u @ w)
     = (has_pair a b u \<or> has_pair a b w \<or> (u \<noteq> [] \<and> w \<noteq> [] \<and> last u = a \<and> hd w = b))"
proof (induction a b u rule: has_pair.induct)
  case (1 a b)
  show ?case by simp
next
  case (2 a b x)
  show ?case by (cases w) auto
next
  case (3 a b x y r)
  then show ?case by auto
qed

lemma has_pair_shape: "has_pair a b t \<Longrightarrow> \<exists>x y r. t = x # y # r"
  by (induction a b t rule: has_pair.induct) auto

lemma index_of_has_pair:
  "index_of s (a # b # w) = Some i \<Longrightarrow> has_pair a b (take (i + 2) s)"
proof (induction s arbitrary: i)
  case Nil
  then show ?case by simp
next
  case (Cons c s)
  show ?case
  proof (cases "starts_with (c # s) (a # b # w)")
    case True
    then obtain s' where "s = b # s'" and "c = a" by (cases s) auto
    with True Cons.prems show ?thesis by simp
  next
    case False
    with Cons.prems obtain k where k: "index_of s (a # b # w) = Some k" and i: "i = Suc k"
      by auto
    from Cons.IH [OF k] have h: "has_pair a b (take (k + 2) s)" .
    then obtain x y r where "take (k + 2) s = x # y # r"
      using has_pair_shape by blast
    with h show ?thesis by (simp add: i)
  qed
qed

lemma index_of_le:
  "starts_with (drop i s) pat \<Longrightarrow> i \<le> length s \<Longrightarrow> \<exists>d\<le>i. index_of s pat = Some d"
proof (induction s arbitrary: i)
  case Nil
  then show ?case by (cases pat) simp_all
next
  case (Cons c s)
  show ?case
  proof (cases "starts_with (c # s) pat")
    case True
    then show ?thesis by simp
  next
    case False
    with Cons.prems obtain k where i: "i = Suc k" by (cases i) auto
    with Cons.prems have "starts_with (drop k s) pat" "k \<le> length s" by simp_all
    from Cons.IH [OF this] obtain d where "d \<le> k" "index_of s pat = Some d" by blast
    with False i show ?thesis by simp
  qed
qed

lemma backslash_not_space [simp]: "backslash \<noteq> CHR '' ''" "CHR '' '' \<noteq> backslash"
  by (simp_all add: backslash_def)

lemma backslash_not_letter [simp]: "backslash \<noteq> CHR ''C''" "backslash \<noteq> CHR ''D''"
  by (simp_all add: backslash_def)

lemma no_pair_part:
  assumes "c \<noteq> CHR ''C''" and "backslash \<notin> set v"
  shows "\<not> has_pair CHR ''C'' backslash (codeValue (c, v) @ '' '')"
proof
  assume "has_pair CHR ''C'' backslash (codeValue (c, v) @ '' '')"
  with assms(1) have "has_pair CHR ''C'' backslash (backslash # v @ '' '')"
    by (simp add: codeValue_def tok_def)
  from has_pair_second [OF this] assms(2) show False by simp
qed

lemma no_pair_before:
  "\<forall>e\<in>set pre. fst e \<noteq> CHR ''C'' \<and> backslash \<notin> set (snd e) \<Longrightarrow>
   \<not> has_pair CHR ''C'' backslash
       (concat (map (\<lambda>p. p @ '' '') (map codeValue pre)) @ [CHR ''D'', backslash])"
proof (induction pre)
  case Nil
  show ?case by simp
next
  case (Cons e pre)
  obtain c v where e: "e = (c, v)" by (cases e)
  from Cons.prems e have c: "c \<noteq> CHR ''C''" and v: "backslash \<notin> set v" by simp_all
  let ?rest = "concat (map (\<lambda>p. p @ '' '') (map codeValue pre)) @ [CHR ''D'', backslash]"
  have "\<not> has_pair CHR ''C'' backslash ?rest" using Cons by simp
  moreover have "\<not> has_pair CHR ''C'' backslash (codeValue (c, v) @ '' '')"
    by (rule no_pair_part [OF c v])
  moreover have "last (codeValue (c, v) @ '' '') \<noteq> CHR ''C''" by simp
  ultimately have "\<not> has_pair CHR ''C'' backslash ((codeValue (c, v) @ '' '') @ ?rest)"
    by (simp only: has_pair_append) blast
  then show ?case by (simp add: e)
qed

lemma pilot_after_dinghy:
  assumes pre: "\<forall>e\<in>set pre. fst e \<noteq> CHR ''C'' \<and> backslash \<notin> set (snd e)"
    and str: "str = concat (map (\<lambda>p. p @ '' '') (map codeValue pre)) @ CHR ''D'' # backslash # z"
    and i: "index_of str (tok CHR ''C'' w) = Some i"
  shows "isPilotToken str w"
proof -
  let ?x = "concat (map (\<lambda>p. p @ '' '') (map codeValue pre))"
  have "starts_with (drop (length ?x) str) (tok CHR ''D'' [])"
    by (simp add: str tok_def)
  moreover have "length ?x \<le> length str" by (simp add: str)
  ultimately obtain d where d: "d \<le> length ?x" and id: "index_of str (tok CHR ''D'' []) = Some d"
    using index_of_le by blast
  have "length ?x < i"
  proof (rule ccontr)
    assume "\<not> length ?x < i"
    then have le: "i + 2 \<le> length ?x + 2" by simp
    from i have h: "has_pair CHR ''C'' backslash (take (i + 2) str)"
      by (simp only: tok_def index_of_has_pair)
    have "take (length ?x + 2) str
            = take (i + 2) str @ take (length ?x + 2 - (i + 2)) (drop (i + 2) str)"
      using le by (metis le_add_diff_inverse take_add)
    then have "has_pair CHR ''C'' backslash (take (length ?x + 2) str)"
      using h by (simp only: has_pair_append) blast
    moreover have "take (length ?x + 2) str = ?x @ [CHR ''D'', backslash]" by (simp add: str)
    ultimately show False using no_pair_before [OF pre] by simp
  qed
  with d have "d < i" by simp
  then show ?thesis by (simp add: isPilotToken_def index_of_int_def i id)
qed

lemma part_in_join: "p \<in> set parts \<Longrightarrow> \<exists>a b. join sep parts = a @ p @ b"
proof (induction sep parts rule: join.induct)
  case (1 sep)
  then show ?case by simp
next
  case (2 sep x)
  then have "join sep [x] = [] @ p @ []" by simp
  then show ?case by blast
next
  case (3 sep x y ys)
  show ?case
  proof (cases "p = x")
    case True
    then have "join sep (x # y # ys) = [] @ p @ (sep @ join sep (y # ys))" by simp
    then show ?thesis by blast
  next
    case False
    with 3 obtain a b where "join sep (y # ys) = a @ p @ b" by auto
    then have "join sep (x # y # ys) = (x @ sep @ a) @ p @ b" by simp
    then show ?thesis by blast
  qed
qed

lemma token_text_in_join:
  assumes "(c, v) \<in> set cvs"
  shows "index_of (join '' '' (map codeValue cvs)) (tok c (value_run v)) \<noteq> None"
proof -
  have "codeValue (c, v) \<in> set (map codeValue cvs)" using assms by force
  from part_in_join [OF this] obtain a b where
    j: "join '' '' (map codeValue cvs) = a @ codeValue (c, v) @ b" by blast
  have "codeValue (c, v) = tok c (value_run v) @ dropWhile (\<lambda>x. x \<noteq> CHR '' '') v"
    using value_run_split [of v] by (simp add: codeValue_def tok_def)
  then have "join '' '' (map codeValue cvs)
      = a @ tok c (value_run v) @ (dropWhile (\<lambda>x. x \<noteq> CHR '' '') v @ b)"
    using j by simp
  then show ?thesis using index_of_None_iff by blast
qed

lemma letters_free: "backslash \<notin> set (letters [(a, CHR ''U''), (b, CHR ''V''), (c, CHR ''E'')])"
  "backslash \<notin> set (letters [(a, CHR ''P''), (b, CHR ''D''), (c, CHR ''M''), (d, CHR ''J'')])"
  "backslash \<notin> set (letters [(a, CHR ''L''), (b, CHR ''F''), (c, CHR ''U''), (d, CHR ''V'')])"
  by (auto simp: letters_def backslash_def)

lemma upper_codes:
  "is_upper CHR ''E''" "is_upper CHR ''P''" "is_upper CHR ''R''" "is_upper CHR ''S''"
  "is_upper CHR ''J''" "is_upper CHR ''D''" "is_upper CHR ''A''" "is_upper CHR ''N''"
  "is_upper CHR ''C''"
  by (simp_all add: is_upper_def in_range_def)

lemma beforeDinghy_entries:
  assumes "\<forall>t\<in>set (text_fields data). backslash \<notin> set t" and "e \<in> set (beforeDinghy data)"
  shows "is_upper (fst e) \<and> backslash \<notin> set (snd e) \<and> fst e \<noteq> CHR ''C'' \<and> fst e \<noteq> CHR ''D''"
  using assms letters_free upper_codes
  by (auto simp: beforeDinghy_def text_fields_def Let_def split: if_splits)

lemma afterDinghy_entries:
  assumes "\<forall>t\<in>set (text_fields data). backslash \<notin> set t" and "e \<in> set (afterDinghy data)"
  shows "is_upper (fst e) \<and> backslash \<notin> set (snd e) \<and> fst e \<noteq> CHR ''D''"
  using assms upper_codes
  by (auto simp: afterDinghy_def text_fields_def split: if_splits)

lemma dinghyValue_free:
  assumes "\<forall>t\<in>set (text_fields data). backslash \<notin> set t"
  shows "backslash \<notin> set (dinghyValue data)"
  using assms by (auto simp: dinghyValue_def text_fields_def backslash_def)

lemma value_run_dinghy:
  assumes "CHR '' '' \<notin> set (dinghiesNumber data)"
  shows "value_run (dinghyValue data) = dinghiesNumber data"
proof -
  let ?cont = "(if dinghiesCapacity data \<noteq> [] then '' '' @ dinghiesCapacity data else [])
     @ (if dinghiesCover data then '' C'' else [])
     @ (if dinghiesColour data \<noteq> [] then '' '' @ dinghiesColour data else [])"
  have "takeWhile (\<lambda>x. x \<noteq> CHR '' '') ?cont = []" by simp
  moreover have "value_run (dinghiesNumber data @ ?cont)
      = dinghiesNumber data @ takeWhile (\<lambda>x. x \<noteq> CHR '' '') ?cont"
    unfolding value_run_def using assms by (intro takeWhile_append2) auto
  ultimately show ?thesis by (simp add: dinghyValue_def)
qed

lemma decode_encoded:
  assumes en: "dinghiesEnabled data" and nn: "dinghiesNumber data \<noteq> []"
    and nb: "\<forall>t\<in>set (text_fields data). backslash \<notin> set t"
    and ns: "CHR '' '' \<notin> set (dinghiesNumber data)"
  shows "\<exists>r. parseField19String (buildField19String data) = Some r
           \<and> dinghiesEnabled r \<and> dinghiesNumber r = dinghiesNumber data
           \<and> dinghiesCapacity r = [] \<and> \<not> dinghiesCover r \<and> dinghiesColour r = []"
proof -
  let ?pre = "beforeDinghy data"
  let ?post = "afterDinghy data"
  let ?dv = "dinghyValue data"
  let ?cvs = "?pre @ (CHR ''D'', ?dv) # ?post"
  let ?str = "buildField19String data"
  let ?f = "\<lambda>e. ([fst e], value_run (snd e))"
  have str: "?str = join '' '' (map codeValue ?cvs)"
    using field19Parts_shape [OF en nn] by (simp add: buildField19String_def)
  have ok: "\<forall>e\<in>set ?cvs. is_upper (fst e) \<and> backslash \<notin> set (snd e)"
    using beforeDinghy_entries [OF nb] afterDinghy_entries [OF nb] dinghyValue_free [OF nb]
      upper_codes by auto
  have toks: "map token_pair (match_all False field19_re 0 ?str)
      = map ?f ?pre @ (''D'', dinghiesNumber data) # map ?f ?post"
    using tokens_of_join [OF ok, of 0] value_run_dinghy [OF ns] by (simp add: str)
  let ?ra = "fold (switch_pair ?str) (map ?f ?pre) defaultField19Data"
  let ?rb = "switch_pair ?str (''D'', dinghiesNumber data) ?ra"
  let ?rc = "fold (switch_pair ?str) (map ?f ?post) ?rb"
  have res: "parseField19String ?str = Some ?rc"
    by (simp add: parseField19String_fold fold_token_pairs toks)
  have x: "?str = concat (map (\<lambda>p. p @ '' '') (map codeValue ?pre))
      @ CHR ''D'' # backslash # (if ?post = [] then ?dv
           else ?dv @ '' '' @ join '' '' (map codeValue ?post))"
    by (cases ?post) (simp_all add: str join_append_Cons codeValue_def tok_def)
  have pre: "\<forall>e\<in>set ?pre. fst e \<noteq> CHR ''C'' \<and> backslash \<notin> set (snd e)"
    using beforeDinghy_entries [OF nb] by blast
  have pil: "\<forall>e\<in>set (map ?f ?post). fst e = ''C'' \<longrightarrow> isPilotToken ?str (snd e)"
  proof
    fix e
    assume "e \<in> set (map ?f ?post)"
    then obtain c v where cv: "(c, v) \<in> set ?post" and e: "e = ([c], value_run v)" by auto
    show "fst e = ''C'' \<longrightarrow> isPilotToken ?str (snd e)"
    proof
      assume "fst e = ''C''"
      with e have c: "c = CHR ''C''" by simp
      from cv have "(c, v) \<in> set ?cvs" by simp
      from token_text_in_join [OF this] obtain i where
        "index_of ?str (tok CHR ''C'' (value_run v)) = Some i" by (auto simp: str c)
      from pilot_after_dinghy [OF pre x this] show "isPilotToken ?str (snd e)" by (simp add: e)
    qed
  qed
  have nd: "\<forall>e\<in>set (map ?f ?post). fst e \<noteq> ''D''"
    using afterDinghy_entries [OF nb] by auto
  have nc: "\<forall>e\<in>set (map ?f ?pre). fst e = ''C'' \<longrightarrow> isPilotToken ?str (snd e)"
    using beforeDinghy_entries [OF nb] by auto
  have "dinghiesNumber ?rb = dinghiesNumber data \<and> dinghiesEnabled ?rb"
    using switch_D by (simp add: switch_pair_def)
  then have a: "dinghiesNumber ?rc = dinghiesNumber data \<and> dinghiesEnabled ?rc"
    using fold_keeps_number [OF nd, of ?str ?rb] by simp
  have c0: "dinghiesCover ?ra = dinghiesCover defaultField19Data"
    by (rule fold_keeps_cover [OF nc])
  have c1: "dinghiesCover ?rb = dinghiesCover ?ra"
    using switch_keeps_cover [of "''D''" ?str "dinghiesNumber data" ?ra]
    by (simp add: switch_pair_def)
  have c2: "dinghiesCover ?rc = dinghiesCover ?rb"
    by (rule fold_keeps_cover [OF pil])
  have c3: "dinghiesCover defaultField19Data = False"
    by (simp add: defaultField19Data_def)
  have b: "\<not> dinghiesCover ?rc" by (simp only: c0 c1 c2 c3 simp_thms)
  have k0: "dinghiesCapacity ?ra = dinghiesCapacity defaultField19Data
      \<and> dinghiesColour ?ra = dinghiesColour defaultField19Data"
    by (rule fold_keeps_capacity_colour)
  have k1: "dinghiesCapacity ?rb = dinghiesCapacity ?ra \<and> dinghiesColour ?rb = dinghiesColour ?ra"
    using switch_keeps_capacity_colour by (simp add: switch_pair_def)
  have k2: "dinghiesCapacity ?rc = dinghiesCapacity ?rb \<and> dinghiesColour ?rc = dinghiesColour ?rb"
    by (rule fold_keeps_capacity_colour)
  have k3: "dinghiesCapacity defaultField19Data = [] \<and> dinghiesColour defaultField19Data = []"
    by (simp add: defaultField19Data_def)
  have c: "dinghiesCapacity ?rc = [] \<and> dinghiesColour ?rc = []"
    using k0 k1 k2 k3 by (simp only:)
  show ?thesis using res a b c by blast
qed

text \<open>
  Claim C10, as stated, at two records with a dinghy block and the cover flag set. With
  the aircraft colour \<^verbatim>\<open>RED D\9\<close> the decoder returns the dinghy number 9, not 2. With the
  persons value \<^verbatim>\<open> C\\<close> the decoder returns the dinghy cover as set.
\<close>

theorem C10_counterexample:
  "dinghiesEnabled example10 \<and> dinghiesNumber example10 = ''2'' \<and> dinghiesCover example10
   \<and> map_option dinghiesNumber (parseField19String (buildField19String example10)) = Some ''9''
   \<and> dinghiesEnabled example10b \<and> dinghiesNumber example10b = ''2'' \<and> dinghiesCover example10b
   \<and> map_option dinghiesCover (parseField19String (buildField19String example10b)) = Some True"
  by code_simp

text \<open>
  Claim C10, amended. Take Field 19 data with the dinghy block enabled, a dinghy number that
  is not empty and has no space, one of capacity, cover and colour set, and no backslash
  in any text sub-field. The encoder emits capacity, the cover mark \<^verbatim>\<open>C\<close> and colour after
  the number inside the one \<^verbatim>\<open>D\\<close> part, each after a space. Decoding the encoder's output
  returns a record with the dinghy block enabled and the same number, but with an empty
  capacity, no cover and an empty colour: not the record that was encoded.
\<close>

theorem C10_dinghy_block_lost:
  assumes "dinghiesEnabled data" and "dinghiesNumber data \<noteq> []"
    and "dinghiesCapacity data \<noteq> [] \<or> dinghiesCover data \<or> dinghiesColour data \<noteq> []"
    and "\<forall>t\<in>set (text_fields data). backslash \<notin> set t"
    and "CHR '' '' \<notin> set (dinghiesNumber data)"
  shows "(\<exists>before after. field19Parts data = before @ [dinghyPart data] @ after)
     \<and> dinghyPart data
         = tok CHR ''D'' (dinghiesNumber data)
           @ (if dinghiesCapacity data \<noteq> [] then '' '' @ dinghiesCapacity data else [])
           @ (if dinghiesCover data then '' C'' else [])
           @ (if dinghiesColour data \<noteq> [] then '' '' @ dinghiesColour data else [])
     \<and> (\<exists>r. parseField19String (buildField19String data) = Some r
           \<and> dinghiesEnabled r \<and> dinghiesNumber r = dinghiesNumber data
           \<and> dinghiesCapacity r = [] \<and> \<not> dinghiesCover r \<and> dinghiesColour r = []
           \<and> r \<noteq> data)"
proof (intro conjI)
  have "field19Parts data
      = map codeValue (beforeDinghy data) @ [dinghyPart data] @ map codeValue (afterDinghy data)"
    using field19Parts_shape [OF assms(1,2)]
    by (simp add: codeValue_def dinghyPart_def dinghyValue_def tok_def)
  then show "\<exists>before after. field19Parts data = before @ [dinghyPart data] @ after" by blast
next
  show "dinghyPart data
         = tok CHR ''D'' (dinghiesNumber data)
           @ (if dinghiesCapacity data \<noteq> [] then '' '' @ dinghiesCapacity data else [])
           @ (if dinghiesCover data then '' C'' else [])
           @ (if dinghiesColour data \<noteq> [] then '' '' @ dinghiesColour data else [])"
    by (simp add: dinghyPart_def)
next
  from decode_encoded [OF assms(1,2,4,5)] obtain r where
    r: "parseField19String (buildField19String data) = Some r"
    "dinghiesEnabled r" "dinghiesNumber r = dinghiesNumber data"
    "dinghiesCapacity r = []" "\<not> dinghiesCover r" "dinghiesColour r = []" by blast
  with assms(3) have "r \<noteq> data" by auto
  with r show "\<exists>r. parseField19String (buildField19String data) = Some r
           \<and> dinghiesEnabled r \<and> dinghiesNumber r = dinghiesNumber data
           \<and> dinghiesCapacity r = [] \<and> \<not> dinghiesCover r \<and> dinghiesColour r = []
           \<and> r \<noteq> data" by blast
qed

text \<open>C10 at the record of plain values.\<close>

theorem C10_witness:
  "dinghiesEnabled example10c \<and> dinghiesNumber example10c = ''2''
   \<and> dinghiesCapacity example10c = ''8'' \<and> dinghiesCover example10c
   \<and> dinghiesColour example10c = ''YELLOW''
   \<and> (\<exists>r. parseField19String (buildField19String example10c) = Some r
         \<and> dinghiesEnabled r \<and> dinghiesNumber r = ''2''
         \<and> dinghiesCapacity r = [] \<and> \<not> dinghiesCover r \<and> dinghiesColour r = [])"
proof -
  have h1: "dinghiesEnabled example10c" by code_simp
  have h2: "dinghiesNumber example10c \<noteq> []" by code_simp
  have h3: "dinghiesCapacity example10c \<noteq> [] \<or> dinghiesCover example10c
            \<or> dinghiesColour example10c \<noteq> []" by code_simp
  have h4: "\<forall>t\<in>set (text_fields example10c). backslash \<notin> set t" by code_simp
  have h5: "CHR '' '' \<notin> set (dinghiesNumber example10c)" by code_simp
  have n: "dinghiesNumber example10c = ''2''" by code_simp
  have c: "dinghiesCapacity example10c = ''8'' \<and> dinghiesCover example10c
      \<and> dinghiesColour example10c = ''YELLOW''" by code_simp
  from C10_dinghy_block_lost [OF h1 h2 h3 h4 h5] obtain r where
    "parseField19String (buildField19String example10c) = Some r"
    "dinghiesEnabled r" "dinghiesNumber r = dinghiesNumber example10c"
    "dinghiesCapacity r = []" "\<not> dinghiesCover r" "dinghiesColour r = []" by blast
  then have "\<exists>r. parseField19String (buildField19String example10c) = Some r
         \<and> dinghiesEnabled r \<and> dinghiesNumber r = ''2''
         \<and> dinghiesCapacity r = [] \<and> \<not> dinghiesCover r \<and> dinghiesColour r = []"
    by (simp only: n) blast
  with h1 n c show ?thesis by (intro conjI) simp_all
qed

section \<open>Cookie jar\<close>

lemma split_on_skip:
  "c \<notin> set p \<Longrightarrow> split_on (c # sep) (p @ s) acc = split_on (c # sep) s (acc @ p)"
proof (induction p arbitrary: acc)
  case Nil
  show ?case by simp
next
  case (Cons a p)
  from Cons.prems have ne: "a \<noteq> c" and p: "c \<notin> set p" by auto
  from ne have "split_on (c # sep) ((a # p) @ s) acc = split_on (c # sep) (p @ s) (acc @ [a])"
    by simp
  with Cons.IH [OF p, of "acc @ [a]"] show ?case by simp
qed

lemma split_on_end: "c \<notin> set p \<Longrightarrow> split_on (c # sep) p acc = [acc @ p]"
  using split_on_skip [of c p sep "[]" acc] by simp

lemma starts_with_append: "starts_with (sep @ s) sep"
  by (simp add: starts_with_iff)

lemma split_on_sep:
  "sep \<noteq> [] \<Longrightarrow> split_on sep (sep @ s) acc = acc # split_on sep s []"
proof -
  assume n: "sep \<noteq> []"
  then obtain c sep' where sep: "sep = c # sep'" by (cases sep) auto
  have "starts_with (c # sep' @ s) (c # sep')" using starts_with_append [of sep s] sep by simp
  then show ?thesis by (simp add: sep)
qed

lemma split_join:
  assumes "\<forall>p\<in>set (x # xs). CHR '';'' \<notin> set p"
  shows "split_on ''; '' (join ''; '' (x # xs)) acc = (acc @ x) # xs"
  using assms
proof (induction xs arbitrary: x acc)
  case Nil
  then show ?case using split_on_end [of "CHR '';''" x "'' ''" acc] by simp
next
  case (Cons y ys)
  from Cons.prems have x: "CHR '';'' \<notin> set x" and r: "\<forall>p\<in>set (y # ys). CHR '';'' \<notin> set p"
    by simp_all
  have "split_on ''; '' (x @ ''; '' @ join ''; '' (y # ys)) acc
      = split_on ''; '' (''; '' @ join ''; '' (y # ys)) (acc @ x)"
    using split_on_skip [OF x, of "'' ''" "''; '' @ join ''; '' (y # ys)" acc] by simp
  also have "\<dots> = (acc @ x) # split_on ''; '' (join ''; '' (y # ys)) []"
    using split_on_sep [of "''; ''" "join ''; '' (y # ys)" "acc @ x"] by simp
  also have "\<dots> = (acc @ x) # y # ys" using Cons.IH [OF r, of "[]"] by simp
  finally show ?case by simp
qed

lemma split_pair:
  assumes "CHR ''='' \<notin> set k" and "CHR ''='' \<notin> set v"
  shows "split_str ''='' (k @ ''='' @ v) = [k, v]"
proof -
  have "split_on ''='' (k @ ''='' @ v) [] = split_on ''='' (''='' @ v) k"
    using split_on_skip [OF assms(1), of "[]" "''='' @ v" "[]"] by simp
  also have "\<dots> = k # split_on ''='' v []"
    using split_on_sep [of "''=''" v k] by simp
  also have "\<dots> = [k, v]" using split_on_end [OF assms(2), of "[]" "[]"] by simp
  finally show ?thesis by (simp add: split_str_def)
qed

lemma formatCookies_join: "formatCookies es = join ''; '' (map cookie_text es)"
proof -
  have "(\<lambda>(key, value). key @ ''='' @ value) = cookie_text"
    by (auto simp: cookie_text_def fun_eq_iff)
  then show ?thesis by (simp only: formatCookies_def)
qed

lemma fold_parts:
  "plain_cookies es \<Longrightarrow>
   fold (\<lambda>part cookieMap.
           case split_str ''='' part of
             key # value # rest \<Rightarrow>
               if key \<noteq> [] \<and> value \<noteq> [] then AList.update key value cookieMap
               else cookieMap
           | _ \<Rightarrow> cookieMap)
        (map cookie_text es) m
     = set_all es m"
proof (induction es arbitrary: m)
  case Nil
  show ?case by (simp add: set_all_def)
next
  case (Cons e es)
  obtain k v where e: "e = (k, v)" by (cases e)
  from Cons.prems e have kv: "plain_text k" "plain_text v" and r: "plain_cookies es"
    by (simp_all add: plain_cookies_def)
  then have s: "split_str ''='' (cookie_text e) = [k, v]"
    using split_pair [of k v] by (simp add: cookie_text_def e plain_text_def)
  from kv have "k \<noteq> []" "v \<noteq> []" by (simp_all add: plain_text_def)
  with s Cons.IH [OF r] show ?case by (simp add: set_all_def e)
qed

lemma parseExisting_format:
  assumes "plain_cookies es"
  shows "parseExisting (formatCookies es) = set_all es []"
proof (cases es)
  case Nil
  then show ?thesis by (simp add: parseExisting_def formatCookies_def set_all_def)
next
  case (Cons e es')
  from assms have "\<forall>p\<in>set (map cookie_text es). CHR '';'' \<notin> set p"
    by (auto simp: plain_cookies_def plain_text_def cookie_text_def list_all_iff)
  then have sp: "split_str ''; '' (formatCookies es) = map cookie_text es"
    using split_join [of "cookie_text e" "map cookie_text es'" "[]"]
    by (simp add: Cons formatCookies_join split_str_def)
  from assms Cons have "fst e \<noteq> []" by (simp add: plain_cookies_def plain_text_def)
  then have "formatCookies es \<noteq> []"
    by (cases es') (simp_all add: Cons formatCookies_join cookie_text_def)
  then show ?thesis
    using fold_parts [OF assms, of "[]"] by (simp add: parseExisting_def sp)
qed

lemma set_all_props:
  "distinct (map fst m) \<Longrightarrow>
   distinct (map fst (set_all es m))
   \<and> set (map fst (set_all es m)) = fst ` set m \<union> fst ` set es
   \<and> map_of (set_all es m) = map_of m ++ map_of (rev es)"
proof (induction es arbitrary: m)
  case Nil
  then show ?case by (simp add: set_all_def)
next
  case (Cons e es)
  obtain k v where e: "e = (k, v)" by (cases e)
  let ?m = "AList.update k v m"
  have d: "distinct (map fst ?m)" using Cons.prems by (rule distinct_update)
  have s: "set_all (e # es) m = set_all es ?m" by (simp add: set_all_def e)
  from Cons.IH [OF d] have ih: "distinct (map fst (set_all es ?m))"
    "set (map fst (set_all es ?m)) = fst ` set ?m \<union> fst ` set es"
    "map_of (set_all es ?m) = map_of ?m ++ map_of (rev es)" by simp_all
  have "map_of ?m ++ map_of (rev es) = map_of m ++ map_of (rev (e # es))"
    by (simp add: e update_conv' map_add_upd_left fun_eq_iff map_add_def split: option.splits)
  with ih show ?case
    unfolding s by (simp add: e dom_update Un_commute Un_left_commute insert_commute)
qed

lemma mergeEntries_format:
  "plain_cookies es \<Longrightarrow> mergeEntries (formatCookies es) newCookies = set_all (es @ newCookies) []"
  by (simp add: mergeEntries_def parseExisting_format set_all_def)

text \<open>
  Claim C2, as stated, at a cookie with an empty value: merging the names \<open>a\<close> and \<open>b\<close> into
  an empty header gives \<^verbatim>\<open>a=; b=2\<close>; merging nothing into that header drops the name \<open>a\<close>,
  by the test \<^verbatim>\<open>key && value\<close>.
\<close>

theorem C2_counterexample:
  "mergeCookies [] [(''a'', []), (''b'', ''2'')] = ''a=; b=2''
   \<and> mergeEntries ''a=; b=2'' [] = [(''b'', ''2'')]
   \<and> mergeCookies ''a=; b=2'' [] = ''b=2''"
  by code_simp

text \<open>
  A value with an equals sign is cut at the sign when the header is read again:
  \<^verbatim>\<open>part.split('=')\<close> keeps the first two pieces only.
\<close>

lemma mergeCookies_equals_sign:
  "mergeCookies [] [(''sid'', ''abc=='')] = ''sid=abc=='' \<and> mergeCookies ''sid=abc=='' [] = ''sid=abc''"
  by code_simp

text \<open>
  Claim C2, amended. For every existing cookie header of plain pairs and every new cookie
  map, the merged output is the text of a list of pairs in which every name of either
  input occurs exactly once; a name of the new map has the value last set in the new map,
  any other name the value last given to it in the existing header.
\<close>

theorem C2_merge_cookies:
  assumes "plain_cookies es"
  shows "mergeCookies (formatCookies es) newCookies
           = formatCookies (mergeEntries (formatCookies es) newCookies)
     \<and> distinct (map fst (mergeEntries (formatCookies es) newCookies))
     \<and> set (map fst (mergeEntries (formatCookies es) newCookies))
         = fst ` set es \<union> fst ` set newCookies
     \<and> map_of (mergeEntries (formatCookies es) newCookies) k
         = (case map_of (rev newCookies) k of
              Some v \<Rightarrow> Some v
            | None \<Rightarrow> map_of (rev es) k)"
proof -
  let ?out = "mergeEntries (formatCookies es) newCookies"
  have o: "?out = set_all (es @ newCookies) []" by (rule mergeEntries_format [OF assms])
  from set_all_props [of "[]" "es @ newCookies"]
  have p: "distinct (map fst ?out)"
    "set (map fst ?out) = fst ` set (es @ newCookies)"
    "map_of ?out = map_of (rev (es @ newCookies))"
    by (simp_all add: o)
  have "map_of (rev (es @ newCookies)) k
      = (case map_of (rev newCookies) k of Some v \<Rightarrow> Some v | None \<Rightarrow> map_of (rev es) k)"
    by (simp add: map_add_def)
  with p show ?thesis by (simp add: mergeCookies_def image_Un)
qed

text \<open>C2 at the example of the specification.\<close>

theorem C2_witness:
  "plain_cookies [(''a'', ''1''), (''b'', ''2'')]
   \<and> formatCookies [(''a'', ''1''), (''b'', ''2'')] = ''a=1; b=2''
   \<and> mergeCookies ''a=1; b=2'' [(''b'', ''3''), (''c'', ''4'')] = ''a=1; b=3; c=4''
   \<and> distinct (map fst (mergeEntries ''a=1; b=2'' [(''b'', ''3''), (''c'', ''4'')]))
   \<and> map_of (mergeEntries ''a=1; b=2'' [(''b'', ''3''), (''c'', ''4'')]) ''b'' = Some ''3''
   \<and> map_of (mergeEntries ''a=1; b=2'' [(''b'', ''3''), (''c'', ''4'')]) ''a'' = Some ''1''"
proof -
  let ?es = "[(''a'', ''1''), (''b'', ''2'')]"
  let ?new = "[(''b'', ''3''), (''c'', ''4'')]"
  have h: "plain_cookies ?es" by code_simp
  have f: "formatCookies ?es = ''a=1; b=2''" by code_simp
  have m: "mergeCookies ''a=1; b=2'' ?new = ''a=1; b=3; c=4''" by code_simp
  have b: "(case map_of (rev ?new) ''b'' of Some v \<Rightarrow> Some v | None \<Rightarrow> map_of (rev ?es) ''b'')
      = Some ''3''" by code_simp
  have a: "(case map_of (rev ?new) ''a'' of Some v \<Rightarrow> Some v | None \<Rightarrow> map_of (rev ?es) ''a'')
      = Some ''1''" by code_simp
  have d: "distinct (map fst (mergeEntries ''a=1; b=2'' ?new))"
    using C2_merge_cookies [OF h, of ?new "''a''"] by (simp only: f)
  have vb: "map_of (mergeEntries ''a=1; b=2'' ?new) ''b'' = Some ''3''"
    using C2_merge_cookies [OF h, of ?new "''b''"] by (simp only: f b)
  have va: "map_of (mergeEntries ''a=1; b=2'' ?new) ''a'' = Some ''1''"
    using C2_merge_cookies [OF h, of ?new "''a''"] by (simp only: f a)
  from h f m d vb va show ?thesis by (intro conjI)
qed

end
